theory Spec2Isabelle
  imports Main
begin

section \<open>Python values used by the address book\<close>

text \<open>
  A Python \<open>str\<close> is modelled as a HOL \<open>string\<close>, each \<open>char\<close> read as the code point of
  the same number: the model covers the strings over U+0000..U+00FF, and \<open>length\<close> counts
  code points as Python's \<open>len\<close> does. Exceptions are values: an operation returns
  \<open>Inl e\<close> where the source raises. The text carried by an error is the message of the
  \<open>raise\<close> statement in \<open>main.py\<close>, or CPython's message, without the values it may
  quote, where the interpreter raises.
\<close>

datatype error = ValueError string | OverflowError string

text \<open>
  \<open>str.isdigit\<close>: true when the string is non-empty and every character has the Unicode
  property Numeric_Type=Digit or Decimal. Below U+0100 these are \<open>0\<close>..\<open>9\<close> and the
  superscripts U+00B2, U+00B3 and U+00B9.
\<close>

definition isdigit_char :: "char \<Rightarrow> bool" where
  "isdigit_char c =
     (let n = (of_char c :: nat)
      in (48 \<le> n \<and> n \<le> 57) \<or> n = 178 \<or> n = 179 \<or> n = 185)"

definition isdigit :: "string \<Rightarrow> bool" where
  "isdigit s = (s \<noteq> [] \<and> list_all isdigit_char s)"

text \<open>The decimal digits \<open>0\<close>..\<open>9\<close>.\<close>

definition is_decimal_digit :: "char \<Rightarrow> bool" where
  "is_decimal_digit c = (let n = (of_char c :: nat) in 48 \<le> n \<and> n \<le> 57)"

text \<open>
  \<open>list.remove(x)\<close>: deletes the first item equal to \<open>x\<close> and raises \<open>ValueError\<close>
  when there is none. The argument is optional because the source passes the result of
  \<open>find_phone\<close>, which may be \<open>None\<close>; \<open>None\<close> is never an item of the list.
\<close>

definition list_remove :: "'a list \<Rightarrow> 'a option \<Rightarrow> error + 'a list" where
  "list_remove xs x =
     (case x of
        None \<Rightarrow> Inl (ValueError ''list.remove(x): x not in list'')
      | Some p \<Rightarrow>
          if p \<in> set xs then Inr (remove1 p xs)
          else Inl (ValueError ''list.remove(x): x not in list''))"

section \<open>The calendar of \<open>datetime\<close>\<close>

text \<open>
  \<open>datetime.date\<close> holds a year, a month and a day of the proleptic Gregorian calendar,
  years 1 to 9999. The functions below follow CPython's \<open>_pydatetime\<close>: the two month
  tables, \<open>_is_leap\<close>, \<open>_days_in_month\<close>, \<open>_days_before_month\<close>,
  \<open>_days_before_year\<close>, \<open>_ymd2ord\<close> (here \<open>toordinal\<close>) and \<open>_ord2ymd\<close>.
  Python's \<open>//\<close> and \<open>%\<close> on \<open>int\<close> round towards minus infinity, as \<open>div\<close> and
  \<open>mod\<close> do on \<open>int\<close>.
\<close>

record date =
  year :: int
  month :: int
  day :: int

definition is_leap :: "int \<Rightarrow> bool" where
  "is_leap y = (y mod 4 = 0 \<and> (y mod 100 \<noteq> 0 \<or> y mod 400 = 0))"

definition DAYS_IN_MONTH :: "int \<Rightarrow> int" where
  "DAYS_IN_MONTH m =
     (if m = 2 then 28 else if m = 4 \<or> m = 6 \<or> m = 9 \<or> m = 11 then 30 else 31)"

definition DAYS_BEFORE_MONTH :: "int \<Rightarrow> int" where
  "DAYS_BEFORE_MONTH m =
     (if m = 1 then 0 else if m = 2 then 31 else if m = 3 then 59 else if m = 4 then 90
      else if m = 5 then 120 else if m = 6 then 151 else if m = 7 then 181
      else if m = 8 then 212 else if m = 9 then 243 else if m = 10 then 273
      else if m = 11 then 304 else 334)"

definition days_in_month :: "int \<Rightarrow> int \<Rightarrow> int" where
  "days_in_month y m = (if m = 2 \<and> is_leap y then 29 else DAYS_IN_MONTH m)"

definition days_before_month :: "int \<Rightarrow> int \<Rightarrow> int" where
  "days_before_month y m = DAYS_BEFORE_MONTH m + (if m > 2 \<and> is_leap y then 1 else 0)"

definition days_before_year :: "int \<Rightarrow> int" where
  "days_before_year y = (let y1 = y - 1 in y1 * 365 + y1 div 4 - y1 div 100 + y1 div 400)"

text \<open>The values a \<open>date\<close> object can hold: what \<open>_check_date_fields\<close> accepts.\<close>

definition valid_date :: "date \<Rightarrow> bool" where
  "valid_date d =
     (1 \<le> year d \<and> year d \<le> 9999 \<and> 1 \<le> month d \<and> month d \<le> 12
      \<and> 1 \<le> day d \<and> day d \<le> days_in_month (year d) (month d))"

text \<open>The constructor \<open>date(year, month, day)\<close>, which raises on fields out of range.\<close>

definition date_init :: "int \<Rightarrow> int \<Rightarrow> int \<Rightarrow> error + date" where
  "date_init y m d =
     (if \<not> (1 \<le> y \<and> y \<le> 9999) then Inl (ValueError ''year is out of range'')
      else if \<not> (1 \<le> m \<and> m \<le> 12) then Inl (ValueError ''month must be in 1..12'')
      else if \<not> (1 \<le> d \<and> d \<le> days_in_month y m)
      then Inl (ValueError ''day is out of range for month'')
      else Inr \<lparr>year = y, month = m, day = d\<rparr>)"

text \<open>\<open>d.replace(year=y)\<close> builds a new date from the changed fields.\<close>

definition replace_year :: "date \<Rightarrow> int \<Rightarrow> error + date" where
  "replace_year d y = date_init y (month d) (day d)"

definition toordinal :: "date \<Rightarrow> int" where
  "toordinal d = days_before_year (year d) + days_before_month (year d) (month d) + day d"

definition ord2ymd :: "int \<Rightarrow> date" where
  "ord2ymd n0 =
     (let n = n0 - 1;
          n400 = n div 146097; n = n mod 146097;
          y = n400 * 400 + 1;
          n100 = n div 36524; n = n mod 36524;
          n4 = n div 1461; n = n mod 1461;
          n1 = n div 365; n = n mod 365;
          y = y + n100 * 100 + n4 * 4 + n1
      in if n1 = 4 \<or> n100 = 4 then \<lparr>year = y - 1, month = 12, day = 31\<rparr>
         else
           let leapyear = (n1 = 3 \<and> (n4 \<noteq> 24 \<or> n100 = 3));
               m = (n + 50) div 32;
               preceding = DAYS_BEFORE_MONTH m + (if m > 2 \<and> leapyear then 1 else 0);
               (m, preceding) =
                 (if preceding > n
                  then (m - 1,
                        preceding
                        - (DAYS_IN_MONTH (m - 1) + (if m - 1 = 2 \<and> leapyear then 1 else 0)))
                  else (m, preceding))
           in \<lparr>year = y, month = m, day = n - preceding + 1\<rparr>)"

text \<open>\<open>d.weekday()\<close>: Monday is 0 and Sunday is 6.\<close>

definition weekday :: "date \<Rightarrow> int" where
  "weekday d = (toordinal d + 6) mod 7"

text \<open>
  \<open>timedelta(days=k)\<close> raises \<open>OverflowError\<close> beyond 999999999 days either way, and
  \<open>d + timedelta(days=k)\<close>, which is \<open>date.fromordinal(d.toordinal() + k)\<close>, raises
  it when the sum leaves the range of \<open>date\<close>, whose last day, 31 December 9999, has
  ordinal 3652059.
\<close>

definition timedelta :: "int \<Rightarrow> error + int" where
  "timedelta k =
     (if - 999999999 \<le> k \<and> k \<le> 999999999 then Inr k
      else Inl (OverflowError ''days must have magnitude <= 999999999''))"

definition date_add :: "date \<Rightarrow> int \<Rightarrow> error + date" where
  "date_add d k =
     (let n = toordinal d + k
      in if 0 < n \<and> n \<le> 3652059 then Inr (ord2ymd n)
         else Inl (OverflowError ''date value out of range''))"

text \<open>\<open>(a - b).days\<close> and the comparison \<open>a < b\<close>, which compares year, month and day.\<close>

definition date_diff_days :: "date \<Rightarrow> date \<Rightarrow> int" where
  "date_diff_days a b = toordinal a - toordinal b"

definition date_lt :: "date \<Rightarrow> date \<Rightarrow> bool" where
  "date_lt a b =
     (year a < year b
      \<or> (year a = year b \<and> (month a < month b \<or> (month a = month b \<and> day a < day b))))"

section \<open>Parsing and formatting dates\<close>

text \<open>
  \<open>datetime.strptime(s, '%d.%m.%Y')\<close> compiles the format into the regular expression
  \<^verbatim>\<open>(?P<d>3[0-1]|[1-2]\d|0[1-9]|[1-9]| [1-9])\.(?P<m>1[0-2]|0[1-9]|[1-9])\.(?P<Y>\d\d\d\d)\<close>,
  matches it at the start of the string, raises \<open>ValueError\<close> when there is no match or
  when text remains after the match, converts the three groups with \<open>int\<close> and builds the
  date, which raises \<open>ValueError\<close> for a day the month does not have.

  A matcher returns every way of matching a prefix, as pairs of the matched text and the
  rest, in the order in which the backtracking engine of \<open>re\<close> tries them: the head of
  the list is the match \<open>re\<close> reports. In Python the class \<^verbatim>\<open>\d\<close> holds every Unicode
  decimal digit; among the characters below U+0100, which are those a \<open>string\<close> of the
  model can hold, these are \<open>0\<close>..\<open>9\<close>. On such strings the model and \<open>strptime\<close> agree;
  a string with a decimal digit of another script is outside the model.
\<close>

type_synonym matcher = "string \<Rightarrow> (string \<times> string) list"

definition re_char :: "(char \<Rightarrow> bool) \<Rightarrow> matcher" where
  "re_char P s = (case s of [] \<Rightarrow> [] | c # r \<Rightarrow> if P c then [([c], r)] else [])"

definition re_seq :: "matcher \<Rightarrow> matcher \<Rightarrow> matcher" where
  "re_seq p q s = List.bind (p s) (\<lambda>(t, r). map (\<lambda>(u, r'). (t @ u, r')) (q r))"

definition re_alt :: "matcher \<Rightarrow> matcher \<Rightarrow> matcher" where
  "re_alt p q s = p s @ q s"

definition in_range :: "char \<Rightarrow> char \<Rightarrow> char \<Rightarrow> bool" where
  "in_range lo hi c = ((of_char lo :: nat) \<le> of_char c \<and> (of_char c :: nat) \<le> of_char hi)"

definition re_digit :: matcher where
  "re_digit = re_char (in_range (CHR ''0'') (CHR ''9''))"

definition re_dot :: matcher where
  "re_dot = re_char (\<lambda>c. c = CHR ''.'')"

definition re_d :: matcher where
  "re_d =
     re_alt (re_seq (re_char (\<lambda>c. c = CHR ''3'')) (re_char (in_range (CHR ''0'') (CHR ''1''))))
    (re_alt (re_seq (re_char (in_range (CHR ''1'') (CHR ''2''))) re_digit)
    (re_alt (re_seq (re_char (\<lambda>c. c = CHR ''0'')) (re_char (in_range (CHR ''1'') (CHR ''9''))))
    (re_alt (re_char (in_range (CHR ''1'') (CHR ''9'')))
            (re_seq (re_char (\<lambda>c. c = CHR '' '')) (re_char (in_range (CHR ''1'') (CHR ''9'')))))))"

definition re_m :: matcher where
  "re_m =
     re_alt (re_seq (re_char (\<lambda>c. c = CHR ''1'')) (re_char (in_range (CHR ''0'') (CHR ''2''))))
    (re_alt (re_seq (re_char (\<lambda>c. c = CHR ''0'')) (re_char (in_range (CHR ''1'') (CHR ''9''))))
            (re_char (in_range (CHR ''1'') (CHR ''9''))))"

definition re_Y :: matcher where
  "re_Y = re_seq re_digit (re_seq re_digit (re_seq re_digit re_digit))"

text \<open>The whole expression, with the texts of the groups \<open>d\<close>, \<open>m\<close> and \<open>Y\<close>.\<close>

definition format_regex :: "string \<Rightarrow> ((string \<times> string \<times> string) \<times> string) list" where
  "format_regex s =
     List.bind (re_d s) (\<lambda>(d, r1).
     List.bind (re_dot r1) (\<lambda>(dot1, r2).
     List.bind (re_m r2) (\<lambda>(m, r3).
     List.bind (re_dot r3) (\<lambda>(dot2, r4).
     map (\<lambda>(y, r5). ((d, m, y), r5)) (re_Y r4)))))"

text \<open>
  \<open>int(text)\<close> on the texts the groups can hold: blanks around the number are skipped and
  the digits are read in base ten.
\<close>

definition digit_val :: "char \<Rightarrow> int" where
  "digit_val c = int (of_char c) - 48"

definition py_int :: "string \<Rightarrow> int" where
  "py_int t = foldl (\<lambda>a c. 10 * a + digit_val c) 0 (dropWhile (\<lambda>c. c = CHR '' '') t)"

definition strptime :: "string \<Rightarrow> error + date" where
  "strptime data_string =
     (case format_regex data_string of
        [] \<Rightarrow> Inl (ValueError ''time data does not match format'')
      | ((d, m, y), rest) # other \<Rightarrow>
          if rest \<noteq> [] then Inl (ValueError ''unconverted data remains'')
          else date_init (py_int y) (py_int m) (py_int d))"

text \<open>
  \<open>d.strftime('%d.%m.%Y')\<close> hands the format to the C library: day and month as two
  digits padded with a zero, and the year in decimal. The GNU C library, with which CPython
  runs on Linux, prints the year without leading zeros (\<open>999\<close> for the year 999); other
  libraries pad it to four digits. From the year 1000 on all of them print the same four
  digits. The model follows the GNU C library.
\<close>

definition digit_char :: "int \<Rightarrow> char" where
  "digit_char n = char_of (48 + nat n)"

definition pad2 :: "int \<Rightarrow> string" where
  "pad2 n = [digit_char (n div 10 mod 10), digit_char (n mod 10)]"

definition pad4 :: "int \<Rightarrow> string" where
  "pad4 n =
     [digit_char (n div 1000 mod 10), digit_char (n div 100 mod 10),
      digit_char (n div 10 mod 10), digit_char (n mod 10)]"

definition format_Y :: "int \<Rightarrow> string" where
  "format_Y y = dropWhile (\<lambda>c. c = CHR ''0'') (pad4 y)"

definition strftime :: "date \<Rightarrow> string" where
  "strftime d = pad2 (day d) @ ''.'' @ pad2 (month d) @ ''.'' @ format_Y (year d)"

text \<open>
  A date written as the specification writes it, DD.MM.YYYY: two digits, two digits and four
  digits, each padded with zeros.
\<close>

definition DD_MM_YYYY :: "date \<Rightarrow> string" where
  "DD_MM_YYYY d = pad2 (day d) @ ''.'' @ pad2 (month d) @ ''.'' @ pad4 (year d)"

text \<open>
  The texts the three groups of the format can hold, said without the regular expression:
  a day is one digit from 1 to 9, or a blank and such a digit, or two digits that read 1
  to 31; a month is one digit from 1 to 9 or two digits that read 1 to 12; a year is four
  digits.
\<close>

fun day_text :: "string \<Rightarrow> bool" where
  "day_text [a] = (is_decimal_digit a \<and> 1 \<le> digit_val a)"
| "day_text [a, b] =
     ((a = CHR '' '' \<and> is_decimal_digit b \<and> 1 \<le> digit_val b)
      \<or> (is_decimal_digit a \<and> is_decimal_digit b
          \<and> 1 \<le> 10 * digit_val a + digit_val b \<and> 10 * digit_val a + digit_val b \<le> 31))"
| "day_text t = False"

fun month_text :: "string \<Rightarrow> bool" where
  "month_text [a] = (is_decimal_digit a \<and> 1 \<le> digit_val a)"
| "month_text [a, b] =
     (is_decimal_digit a \<and> is_decimal_digit b
      \<and> 1 \<le> 10 * digit_val a + digit_val b \<and> 10 * digit_val a + digit_val b \<le> 12)"
| "month_text t = False"

definition year_text :: "string \<Rightarrow> bool" where
  "year_text t = (length t = 4 \<and> list_all is_decimal_digit t)"

section \<open>Fields\<close>

text \<open>
  A \<open>Field\<close> wraps one value; a \<open>Phone\<close> and a \<open>Birthday\<close> are identified with the string
  they hold. \<open>Phone.__init__\<close> raises unless the value is ten digits; \<open>Birthday.__init__\<close>
  parses the value, keeps the string itself and turns a \<open>ValueError\<close> of the parser into
  its own.
\<close>

type_synonym Phone = string

type_synonym Birthday = string

definition Phone :: "string \<Rightarrow> error + Phone" where
  "Phone v =
     (if isdigit v \<and> length v = 10 then Inr v
      else Inl (ValueError ''Phone must be 10 digits.''))"

definition Birthday :: "string \<Rightarrow> error + Birthday" where
  "Birthday v =
     (case strptime v of
        Inl (ValueError msg) \<Rightarrow> Inl (ValueError ''Invalid date format. Use DD.MM.YYYY.'')
      | Inl (OverflowError msg) \<Rightarrow> Inl (OverflowError msg)
      | Inr d \<Rightarrow> Inr v)"

section \<open>Record\<close>

record Record =
  name :: string
  phones :: "Phone list"
  birthday :: "Birthday option"

definition Record_init :: "string \<Rightarrow> Record" where
  "Record_init n = \<lparr>name = n, phones = [], birthday = None\<rparr>"

text \<open>
  A method mutates the record in place; the model returns the outcome of the call together
  with the record as the call leaves it, so that a call which raises still shows the state
  it leaves behind.
\<close>

definition add_phone :: "string \<Rightarrow> Record \<Rightarrow> (error + unit) \<times> Record" where
  "add_phone phone_number r =
     (case Phone phone_number of
        Inl e \<Rightarrow> (Inl e, r)
      | Inr phone \<Rightarrow> (Inr (), r\<lparr>phones := phones r @ [phone]\<rparr>))"

definition find_phone :: "string \<Rightarrow> Record \<Rightarrow> Phone option" where
  "find_phone phone_number r = List.find (\<lambda>phone. phone = phone_number) (phones r)"

definition remove_phone :: "string \<Rightarrow> Record \<Rightarrow> (error + unit) \<times> Record" where
  "remove_phone phone_number r =
     (let phone = find_phone phone_number r
      in case list_remove (phones r) phone of
           Inl e \<Rightarrow> (Inl e, r)
         | Inr ps \<Rightarrow> (Inr (), r\<lparr>phones := ps\<rparr>))"

definition edit_phone :: "string \<Rightarrow> string \<Rightarrow> Record \<Rightarrow> (error + unit) \<times> Record" where
  "edit_phone old_number new_number r =
     (let phone = find_phone old_number r
      in if phone \<noteq> None then
           (case add_phone new_number r of
              (Inl e, r1) \<Rightarrow> (Inl e, r1)
            | (Inr u, r1) \<Rightarrow> remove_phone old_number r1)
         else (Inl (ValueError (''Phone number '' @ old_number @ '' not found.'')), r))"

definition add_birthday :: "string \<Rightarrow> Record \<Rightarrow> (error + unit) \<times> Record" where
  "add_birthday new_birthday r =
     (case Birthday new_birthday of
        Inl e \<Rightarrow> (Inl e, r)
      | Inr b \<Rightarrow> (Inr (), r\<lparr>birthday := Some b\<rparr>))"

section \<open>Weekend shift\<close>

definition find_next_weekday :: "date \<Rightarrow> int \<Rightarrow> error + date" where
  "find_next_weekday start_date wd =
     (let days_ahead = wd - weekday start_date;
          days_ahead = (if days_ahead \<le> 0 then days_ahead + 7 else days_ahead)
      in case timedelta days_ahead of
           Inl e \<Rightarrow> Inl e
         | Inr delta \<Rightarrow> date_add start_date delta)"

definition adjust_for_weekend :: "date \<Rightarrow> error + date" where
  "adjust_for_weekend b =
     (if weekday b \<ge> 5 then find_next_weekday b 0 else Inr b)"

section \<open>AddressBook\<close>

text \<open>
  The book is a \<open>dict\<close> from names to records. A Python \<open>dict\<close> iterates in the order in
  which its keys were first inserted, and assigning to a key that is present replaces the
  value where it stands: an association list with distinct keys.
\<close>

type_synonym AddressBook = "(string \<times> Record) list"

fun dict_setitem :: "'k \<Rightarrow> 'v \<Rightarrow> ('k \<times> 'v) list \<Rightarrow> ('k \<times> 'v) list" where
  "dict_setitem k v [] = [(k, v)]"
| "dict_setitem k v (p # ps) =
     (if fst p = k then (fst p, v) # ps else p # dict_setitem k v ps)"

definition add_record :: "Record \<Rightarrow> AddressBook \<Rightarrow> AddressBook" where
  "add_record record book = dict_setitem (name record) record book"

definition find_book :: "string \<Rightarrow> AddressBook \<Rightarrow> Record option" where
  "find_book n book = map_of book n"

definition delete :: "string \<Rightarrow> AddressBook \<Rightarrow> AddressBook" where
  "delete n book =
     (if n \<in> fst ` set book then filter (\<lambda>p. fst p \<noteq> n) book else book)"

text \<open>
  \<open>get_upcoming_birthdays\<close> reads the clock once; \<open>today\<close> is that reading. An entry of
  the report is the \<open>dict\<close> literal of the source, with its two keys in order. The loop
  visits the records in the order of the book and stops at the first exception.
\<close>

type_synonym entry = "(string \<times> string) list"

fun upcoming_loop :: "int \<Rightarrow> date \<Rightarrow> Record list \<Rightarrow> entry list \<Rightarrow> error + entry list" where
  "upcoming_loop days today [] upcoming_birthdays = Inr upcoming_birthdays"
| "upcoming_loop days today (record # records) upcoming_birthdays =
     (case birthday record of
        None \<Rightarrow> upcoming_loop days today records upcoming_birthdays
      | Some v \<Rightarrow>
          (case strptime v of
             Inl e \<Rightarrow> Inl e
           | Inr birthday_date \<Rightarrow>
               (case replace_year birthday_date (year today) of
                  Inl e \<Rightarrow> Inl e
                | Inr birthday_this_year \<Rightarrow>
                    (case (if date_lt birthday_this_year today
                           then replace_year birthday_date (year today + 1)
                           else Inr birthday_this_year) of
                       Inl e \<Rightarrow> Inl e
                     | Inr birthday_this_year \<Rightarrow>
                         (let days_until_birthday = date_diff_days birthday_this_year today
                          in if 0 \<le> days_until_birthday \<and> days_until_birthday \<le> days then
                               (case adjust_for_weekend birthday_this_year of
                                  Inl e \<Rightarrow> Inl e
                                | Inr congratulation_date \<Rightarrow>
                                    upcoming_loop days today records
                                      (upcoming_birthdays
                                       @ [[(''name'', name record),
                                           (''congratulation_date'',
                                            strftime congratulation_date)]]))
                             else upcoming_loop days today records upcoming_birthdays)))))"

definition get_upcoming_birthdays :: "int \<Rightarrow> date \<Rightarrow> AddressBook \<Rightarrow> error + entry list" where
  "get_upcoming_birthdays days today book = upcoming_loop days today (map snd book) []"

section \<open>Calls into the core\<close>

text \<open>
  The handlers of \<open>main.py\<close> reach a record through \<open>book.find(name)\<close> and call a method
  on the object they get, which is the object the book holds: the mutation shows in the
  book. \<open>on_record\<close> is such a call; when \<open>find\<close> returns \<open>None\<close> the handlers call
  nothing. \<open>core_call\<close> is one call of any operation of a record or of the book, with the
  outcome of the call and the book as the call leaves it.
\<close>

definition on_record ::
  "string \<Rightarrow> (Record \<Rightarrow> (error + unit) \<times> Record) \<Rightarrow> AddressBook
   \<Rightarrow> (error + unit) option \<times> AddressBook" where
  "on_record n method book =
     (case find_book n book of
        None \<Rightarrow> (None, book)
      | Some record \<Rightarrow>
          (case method record of
             (res, record') \<Rightarrow>
               (Some res, map (\<lambda>p. if fst p = n then (fst p, record') else p) book)))"

datatype call =
    AddPhone string string
  | RemovePhone string string
  | EditPhone string string string
  | SetBirthday string string
  | AddRecord Record
  | Delete string
  | UpcomingBirthdays int

datatype outcome = Returned | NotCalled | Raised error | Report "entry list"

definition method_outcome :: "(error + unit) option \<times> AddressBook \<Rightarrow> outcome \<times> AddressBook" where
  "method_outcome x =
     (case x of
        (None, book) \<Rightarrow> (NotCalled, book)
      | (Some (Inl e), book) \<Rightarrow> (Raised e, book)
      | (Some (Inr u), book) \<Rightarrow> (Returned, book))"

fun core_call :: "date \<Rightarrow> call \<Rightarrow> AddressBook \<Rightarrow> outcome \<times> AddressBook" where
  "core_call today (AddPhone n p) book = method_outcome (on_record n (add_phone p) book)"
| "core_call today (RemovePhone n p) book = method_outcome (on_record n (remove_phone p) book)"
| "core_call today (EditPhone n old new) book =
     method_outcome (on_record n (edit_phone old new) book)"
| "core_call today (SetBirthday n b) book = method_outcome (on_record n (add_birthday b) book)"
| "core_call today (AddRecord record) book = (Returned, add_record record book)"
| "core_call today (Delete n) book = (Returned, delete n book)"
| "core_call today (UpcomingBirthdays days) book =
     (case get_upcoming_birthdays days today book of
        Inl e \<Rightarrow> (Raised e, book)
      | Inr upcoming \<Rightarrow> (Report upcoming, book))"

section \<open>The report as the specification words it\<close>

text \<open>
  Section 4.4 of the specification, step by step: the birthday projected onto the year of
  today, or onto the next year when that day is already past; the days until then; the
  congratulation date, moved from a Saturday or a Sunday to the Monday after; and the
  report, one entry for each record whose birthday lies in the window, in the order of
  the records.
\<close>

definition this_year_date :: "date \<Rightarrow> date \<Rightarrow> date" where
  "this_year_date today bd =
     (if date_lt (bd\<lparr>year := year today\<rparr>) today then bd\<lparr>year := year today + 1\<rparr>
      else bd\<lparr>year := year today\<rparr>)"

definition days_until :: "date \<Rightarrow> date \<Rightarrow> int" where
  "days_until today bd = date_diff_days (this_year_date today bd) today"

definition projection_defined :: "date \<Rightarrow> date \<Rightarrow> bool" where
  "projection_defined today bd =
     (valid_date (bd\<lparr>year := year today\<rparr>) \<and> valid_date (this_year_date today bd))"

definition congratulation :: "date \<Rightarrow> date" where
  "congratulation d =
     (if weekday d = 5 then ord2ymd (toordinal d + 2)
      else if weekday d = 6 then ord2ymd (toordinal d + 1)
      else d)"

definition report_entries :: "int \<Rightarrow> date \<Rightarrow> Record \<Rightarrow> entry list" where
  "report_entries days today r =
     (case birthday r of
        None \<Rightarrow> []
      | Some v \<Rightarrow>
          (case strptime v of
             Inl e \<Rightarrow> []
           | Inr bd \<Rightarrow>
               if 0 \<le> days_until today bd \<and> days_until today bd \<le> days
               then [[(''name'', name r),
                      (''congratulation_date'',
                       strftime (congratulation (this_year_date today bd)))]]
               else []))"

definition report :: "int \<Rightarrow> date \<Rightarrow> Record list \<Rightarrow> entry list" where
  "report days today rs = concat (map (report_entries days today) rs)"

section \<open>Ordinals and dates\<close>

lemma div_step: "0 < k \<Longrightarrow> (y::int) div k = (y - 1) div k + (if y mod k = 0 then 1 else 0)"
proof -
  assume k: "0 < k"
  define q where "q = (y - 1) div k"
  define r where "r = (y - 1) mod k"
  have y: "y = k * q + (r + 1)" and r: "0 \<le> r" "r < k"
    using k by (simp_all add: q_def r_def)
  show ?thesis
  proof (cases "r + 1 = k")
    case True
    then have e: "y = k * (q + 1) + 0" using y by (simp add: algebra_simps)
    have "y div k = q + 1" using int_div_pos_eq [OF e _ k] by simp
    moreover have "y mod k = 0" using int_mod_pos_eq [OF e _ k] by simp
    ultimately show ?thesis using q_def by simp
  next
    case False
    then have lt: "r + 1 < k" using r by simp
    have rr: "0 \<le> r + 1" using r by simp
    have "y div k = q" using int_div_pos_eq [OF y rr lt] .
    moreover have "y mod k = r + 1" using int_mod_pos_eq [OF y rr lt] .
    ultimately show ?thesis using r q_def by simp
  qed
qed

lemma leap_dvd: "is_leap y = (4 dvd y \<and> (\<not> 100 dvd y \<or> 400 dvd y))"
  by (simp add: is_leap_def mod_eq_0_iff_dvd)

lemma dby_step: "days_before_year (y + 1) = days_before_year y + (if is_leap y then 366 else 365)"
proof -
  define p4 where "p4 = y div 4"
  define p100 where "p100 = y div 100"
  define p400 where "p400 = y div 400"
  define q4 where "q4 = (y - 1) div 4"
  define q100 where "q100 = (y - 1) div 100"
  define q400 where "q400 = (y - 1) div 400"
  define d4 where "d4 = (4 dvd y)"
  define d100 where "d100 = (100 dvd y)"
  define d400 where "d400 = (400 dvd y)"
  have a: "d100 \<Longrightarrow> d4"
    unfolding d100_def d4_def by (rule dvd_trans [of 4 100]) simp_all
  have b: "d400 \<Longrightarrow> d100"
    unfolding d400_def d100_def by (rule dvd_trans [of 100 400]) simp_all
  have c: "p4 = q4 + (if d4 then 1 else 0)"
    unfolding p4_def q4_def d4_def using div_step [of 4 y] by (simp add: mod_eq_0_iff_dvd)
  have d: "p100 = q100 + (if d100 then 1 else 0)"
    unfolding p100_def q100_def d100_def using div_step [of 100 y] by (simp add: mod_eq_0_iff_dvd)
  have e: "p400 = q400 + (if d400 then 1 else 0)"
    unfolding p400_def q400_def d400_def using div_step [of 400 y] by (simp add: mod_eq_0_iff_dvd)
  have lp: "is_leap y = (d4 \<and> (\<not> d100 \<or> d400))"
    unfolding d4_def d100_def d400_def by (rule leap_dvd)
  have l: "days_before_year (y + 1) = y * 365 + p4 - p100 + p400"
    unfolding p4_def p100_def p400_def days_before_year_def Let_def by simp
  have r: "days_before_year y = (y - 1) * 365 + q4 - q100 + q400"
    unfolding q4_def q100_def q400_def days_before_year_def Let_def by simp
  show ?thesis
    unfolding l r c d e lp using a b
    by (cases d4; cases d100; cases d400; simp add: algebra_simps)
qed

lemma dby_mono: "y \<le> y' \<Longrightarrow> days_before_year y \<le> days_before_year y'"
proof (induction y' rule: int_ge_induct)
  case base
  show ?case by simp
next
  case (step i)
  then show ?case using dby_step [of i] by (simp split: if_splits)
qed

lemma month_bounds:
  fixes r :: int
  assumes "0 \<le> r" "r \<le> 365"
  shows "1 \<le> (r + 50) div 32 \<and> (r + 50) div 32 \<le> 12
         \<and> 32 * ((r + 50) div 32) \<le> r + 50 \<and> r + 50 < 32 * ((r + 50) div 32) + 32"
proof -
  define q where "q = (r + 50) div 32"
  define s where "s = (r + 50) mod 32"
  have e: "r + 50 = 32 * q + s" by (simp add: q_def s_def)
  have s: "0 \<le> s" "s < 32" by (simp_all add: s_def)
  have "1 \<le> q \<and> q \<le> 12 \<and> 32 * q \<le> r + 50 \<and> r + 50 < 32 * q + 32"
    using e s assms by linarith
  then show ?thesis by (simp only: q_def)
qed

lemma month_pre:
  assumes "1 \<le> q" "q \<le> 12" "32 * q \<le> r + 50" "r + 50 < 32 * q + 32"
    "0 \<le> r" "r \<le> 364"
  shows "case (if DAYS_BEFORE_MONTH q + (if q > 2 \<and> L then 1 else 0) > r
               then (q - 1,
                     DAYS_BEFORE_MONTH q + (if q > 2 \<and> L then 1 else 0)
                     - (DAYS_IN_MONTH (q - 1) + (if q - 1 = 2 \<and> L then 1 else 0)))
               else (q, DAYS_BEFORE_MONTH q + (if q > 2 \<and> L then 1 else 0))) of
           (m, p) \<Rightarrow>
             1 \<le> m \<and> m \<le> 12 \<and> p \<le> r
             \<and> r - p + 1 \<le> DAYS_IN_MONTH m + (if m = 2 \<and> L then 1 else 0)
             \<and> p = DAYS_BEFORE_MONTH m + (if m > 2 \<and> L then 1 else 0)"
proof -
  from assms(1,2) have "q = 1 \<or> q = 2 \<or> q = 3 \<or> q = 4 \<or> q = 5 \<or> q = 6 \<or> q = 7 \<or> q = 8
      \<or> q = 9 \<or> q = 10 \<or> q = 11 \<or> q = 12" by arith
  then show ?thesis
    using assms(3-6)
    by (cases L; elim disjE; simp add: DAYS_BEFORE_MONTH_def DAYS_IN_MONTH_def)
qed

lemma mod_cases:
  fixes k :: int
  assumes "y = k * q + s" "0 \<le> s" "s < k"
  shows "y div k = q" "y mod k = s"
  using int_div_pos_eq [OF assms] int_mod_pos_eq [OF assms] by simp_all

lemma dby_formula:
  assumes "0 \<le> b" "b \<le> 3" "0 \<le> c" "c \<le> 24" "0 \<le> e" "e \<le> 3"
  shows "days_before_year (400 * a + 100 * b + 4 * c + e + 1)
         = 146097 * a + 36524 * b + 1461 * c + 365 * e"
proof -
  define y1 where "y1 = 400 * a + 100 * b + 4 * c + e"
  have e4: "y1 = 4 * (100 * a + 25 * b + c) + e" by (simp add: y1_def)
  have e100: "y1 = 100 * (4 * a + b) + (4 * c + e)" by (simp add: y1_def)
  have e400: "y1 = 400 * a + (100 * b + 4 * c + e)" by (simp add: y1_def)
  have d4: "y1 div 4 = 100 * a + 25 * b + c"
    using assms by (intro mod_cases(1) [OF e4]) simp_all
  have d100: "y1 div 100 = 4 * a + b"
    using assms by (intro mod_cases(1) [OF e100]) simp_all
  have d400: "y1 div 400 = a"
    using assms by (intro mod_cases(1) [OF e400]) simp_all
  have "days_before_year (y1 + 1) = y1 * 365 + y1 div 4 - y1 div 100 + y1 div 400"
    by (simp add: days_before_year_def)
  also have "\<dots> = 146097 * a + 36524 * b + 1461 * c + 365 * e"
    unfolding d4 d100 d400 by (simp add: y1_def)
  finally show ?thesis by (simp add: y1_def)
qed

lemma leap_formula:
  assumes "0 \<le> b" "b \<le> 3" "0 \<le> c" "c \<le> 24" "0 \<le> e" "e \<le> 3"
  shows "is_leap (400 * a + 100 * b + 4 * c + e + 1) = (e = 3 \<and> (c \<noteq> 24 \<or> b = 3))"
proof -
  define y where "y = 400 * a + 100 * b + 4 * c + e + 1"
  have m4: "(y mod 4 = 0) = (e = 3)"
  proof (cases "e = 3")
    case True
    then have "y = 4 * (100 * a + 25 * b + c + 1) + 0" by (simp add: y_def)
    from mod_cases(2) [OF this] True show ?thesis by simp
  next
    case False
    have "y = 4 * (100 * a + 25 * b + c) + (e + 1)" by (simp add: y_def)
    from mod_cases(2) [OF this] False assms show ?thesis by simp
  qed
  have m100: "(y mod 100 = 0) = (e = 3 \<and> c = 24)"
  proof (cases "e = 3 \<and> c = 24")
    case True
    then have "y = 100 * (4 * a + b + 1) + 0" by (simp add: y_def)
    from mod_cases(2) [OF this] True show ?thesis by simp
  next
    case False
    have "y = 100 * (4 * a + b) + (4 * c + e + 1)" by (simp add: y_def)
    from mod_cases(2) [OF this] False assms show ?thesis by auto
  qed
  have m400: "(y mod 400 = 0) = (e = 3 \<and> c = 24 \<and> b = 3)"
  proof (cases "e = 3 \<and> c = 24 \<and> b = 3")
    case True
    then have "y = 400 * (a + 1) + 0" by (simp add: y_def)
    from mod_cases(2) [OF this] True show ?thesis by simp
  next
    case False
    have "y = 400 * a + (100 * b + 4 * c + e + 1)" by (simp add: y_def)
    from mod_cases(2) [OF this] False assms show ?thesis by auto
  qed
  show ?thesis
    unfolding is_leap_def y_def [symmetric] m4 m100 m400 by auto
qed

lemma ord2ymd_correct:
  assumes n: "1 \<le> n" "n \<le> 3652059"
  shows "valid_date (ord2ymd n) \<and> toordinal (ord2ymd n) = n"
proof -
  define a where "a = (n - 1) div 146097"
  define r1 where "r1 = (n - 1) mod 146097"
  define b where "b = r1 div 36524"
  define r2 where "r2 = r1 mod 36524"
  define c where "c = r2 div 1461"
  define r3 where "r3 = r2 mod 1461"
  define e where "e = r3 div 365"
  define r4 where "r4 = r3 mod 365"
  define q where "q = (r4 + 50) div 32"
  have E: "n - 1 = 146097 * a + r1" "r1 = 36524 * b + r2" "r2 = 1461 * c + r3"
    "r3 = 365 * e + r4"
    by (simp_all add: a_def r1_def b_def r2_def c_def r3_def e_def r4_def)
  have B: "0 \<le> r1" "r1 < 146097" "0 \<le> r2" "r2 < 36524" "0 \<le> r3" "r3 < 1461"
    "0 \<le> r4" "r4 < 365"
    by (simp_all add: r1_def r2_def r3_def r4_def)
  have Ra: "0 \<le> a" "a \<le> 24" using E(1) B(1,2) n by linarith+
  have Rb: "0 \<le> b" "b \<le> 4" using E(2) B(1-4) by linarith+
  have Rc: "0 \<le> c" "c \<le> 24" using E(3) B(3-6) by linarith+
  have Re: "0 \<le> e" "e \<le> 4" using E(4) B(5-8) by linarith+
  have U: "ord2ymd n =
     (if e = 4 \<or> b = 4 then \<lparr>year = a * 400 + 1 + b * 100 + c * 4 + e - 1, month = 12, day = 31\<rparr>
      else case (if DAYS_BEFORE_MONTH q + (if q > 2 \<and> (e = 3 \<and> (c \<noteq> 24 \<or> b = 3)) then 1 else 0) > r4
               then (q - 1,
                     DAYS_BEFORE_MONTH q + (if q > 2 \<and> (e = 3 \<and> (c \<noteq> 24 \<or> b = 3)) then 1 else 0)
                     - (DAYS_IN_MONTH (q - 1) + (if q - 1 = 2 \<and> (e = 3 \<and> (c \<noteq> 24 \<or> b = 3)) then 1 else 0)))
               else (q, DAYS_BEFORE_MONTH q + (if q > 2 \<and> (e = 3 \<and> (c \<noteq> 24 \<or> b = 3)) then 1 else 0))) of
           (m, p) \<Rightarrow> \<lparr>year = a * 400 + 1 + b * 100 + c * 4 + e, month = m, day = r4 - p + 1\<rparr>)"
    unfolding ord2ymd_def Let_def a_def r1_def b_def r2_def c_def r3_def e_def r4_def q_def
    by (rule refl)
  let ?L = "e = 3 \<and> (c \<noteq> 24 \<or> b = 3)"
  show ?thesis
  proof (cases "e = 4 \<or> b = 4")
    case True
    have "\<exists>b' c'. 0 \<le> b' \<and> b' \<le> 3 \<and> 0 \<le> c' \<and> c' \<le> 24 \<and> (c' \<noteq> 24 \<or> b' = 3)
            \<and> a * 400 + 1 + b * 100 + c * 4 + e - 1 = 400 * a + 100 * b' + 4 * c' + 3 + 1
            \<and> n = 146097 * a + 36524 * b' + 1461 * c' + 1461"
    proof (cases "b = 4")
      case True
      then have "r2 = 0" "c = 0" "r3 = 0" "e = 0" "r4 = 0" using E B Rc Re by linarith+
      then have "0 \<le> (3::int) \<and> (3::int) \<le> 3 \<and> 0 \<le> (24::int) \<and> (24::int) \<le> 24
            \<and> ((24::int) \<noteq> 24 \<or> (3::int) = 3)
            \<and> a * 400 + 1 + b * 100 + c * 4 + e - 1 = 400 * a + 100 * 3 + 4 * 24 + 3 + 1
            \<and> n = 146097 * a + 36524 * 3 + 1461 * 24 + 1461"
        using True E by simp
      then show ?thesis by blast
    next
      case False
      with True have e4: "e = 4" by simp
      then have "r4 = 0" "c \<le> 23" using E B Rc by linarith+
      then have "0 \<le> b \<and> b \<le> 3 \<and> 0 \<le> c \<and> c \<le> 24 \<and> (c \<noteq> 24 \<or> b = 3)
            \<and> a * 400 + 1 + b * 100 + c * 4 + e - 1 = 400 * a + 100 * b + 4 * c + 3 + 1
            \<and> n = 146097 * a + 36524 * b + 1461 * c + 1461"
        using False e4 E Rb Rc by simp
      then show ?thesis by blast
    qed
    then obtain b' c' where bc: "0 \<le> b'" "b' \<le> 3" "0 \<le> c'" "c' \<le> 24" "c' \<noteq> 24 \<or> b' = 3"
      and Y: "a * 400 + 1 + b * 100 + c * 4 + e - 1 = 400 * a + 100 * b' + 4 * c' + 3 + 1"
      and N: "n = 146097 * a + 36524 * b' + 1461 * c' + 1461" by blast
    define Y' where "Y' = 400 * a + 100 * b' + 4 * c' + 3 + 1"
    have D: "ord2ymd n = \<lparr>year = Y', month = 12, day = 31\<rparr>"
      unfolding U Y'_def using True Y by simp
    have dby: "days_before_year Y' = 146097 * a + 36524 * b' + 1461 * c' + 365 * 3"
      unfolding Y'_def using bc by (intro dby_formula) simp_all
    have lp: "is_leap Y'"
      unfolding Y'_def using bc leap_formula [of b' c' 3 a] by simp
    have yr: "1 \<le> Y'" "Y' \<le> 9999"
    proof -
      show "1 \<le> Y'" unfolding Y'_def using Ra bc by linarith
      have "a \<le> 23 \<or> \<not> (b' = 3 \<and> c' = 24)" using N n Ra by linarith
      then show "Y' \<le> 9999" unfolding Y'_def using Ra bc by linarith
    qed
    show ?thesis
      unfolding D using dby lp yr N
      by (simp add: valid_date_def toordinal_def days_in_month_def days_before_month_def
          DAYS_IN_MONTH_def DAYS_BEFORE_MONTH_def)
  next
    case False
    then have be: "b \<le> 3" "e \<le> 3" using Rb Re by linarith+
    define Y' where "Y' = 400 * a + 100 * b + 4 * c + e + 1"
    have Yeq: "a * 400 + 1 + b * 100 + c * 4 + e = Y'" by (simp add: Y'_def)
    have dby: "days_before_year Y' = 146097 * a + 36524 * b + 1461 * c + 365 * e"
      unfolding Y'_def using Rb Rc Re be by (intro dby_formula) simp_all
    have lp: "is_leap Y' = ?L"
      unfolding Y'_def using Rb Rc Re be by (intro leap_formula) simp_all
    have yr: "1 \<le> Y'" "Y' \<le> 9999"
    proof -
      show "1 \<le> Y'" unfolding Y'_def using Ra Rb Rc Re by linarith
      have "a \<le> 23 \<or> \<not> (b = 3 \<and> c = 24 \<and> e = 3)" using E B n Ra by linarith
      then show "Y' \<le> 9999" unfolding Y'_def using Ra Rb Rc Re be by linarith
    qed
    have r364: "r4 \<le> 364" using B by simp
    have r365: "r4 \<le> 365" using B by simp
    have qb: "1 \<le> q" "q \<le> 12" "32 * q \<le> r4 + 50" "r4 + 50 < 32 * q + 32"
      using month_bounds [OF B(7) r365] by (simp_all add: q_def)
    note mp = month_pre [OF qb B(7) r364, of ?L]
    obtain m p where pair:
      "(if DAYS_BEFORE_MONTH q + (if q > 2 \<and> ?L then 1 else 0) > r4
               then (q - 1,
                     DAYS_BEFORE_MONTH q + (if q > 2 \<and> ?L then 1 else 0)
                     - (DAYS_IN_MONTH (q - 1) + (if q - 1 = 2 \<and> ?L then 1 else 0)))
               else (q, DAYS_BEFORE_MONTH q + (if q > 2 \<and> ?L then 1 else 0))) = (m, p)"
      by (meson surj_pair)
    have P: "1 \<le> m" "m \<le> 12" "p \<le> r4"
      "r4 - p + 1 \<le> DAYS_IN_MONTH m + (if m = 2 \<and> ?L then 1 else 0)"
      "p = DAYS_BEFORE_MONTH m + (if m > 2 \<and> ?L then 1 else 0)"
      using mp unfolding pair by simp_all
    have D: "ord2ymd n = \<lparr>year = Y', month = m, day = r4 - p + 1\<rparr>"
      unfolding U pair using False Yeq by simp
    have N: "n = 146097 * a + 36524 * b + 1461 * c + 365 * e + r4 + 1" using E by linarith
    have v: "valid_date (ord2ymd n)"
      unfolding D using yr P(1-4) lp
      by (auto simp: valid_date_def days_in_month_def DAYS_IN_MONTH_def split: if_splits)
    have t: "toordinal (ord2ymd n) = n"
      unfolding D using dby P(5) lp N
      by (simp add: toordinal_def days_before_month_def)
    show ?thesis using v t by simp
  qed
qed

lemma month_cases:
  "1 \<le> (m::int) \<Longrightarrow> m \<le> 12 \<Longrightarrow>
   m = 1 \<or> m = 2 \<or> m = 3 \<or> m = 4 \<or> m = 5 \<or> m = 6 \<or> m = 7 \<or> m = 8 \<or> m = 9 \<or> m = 10
   \<or> m = 11 \<or> m = 12"
  by arith

lemma dbm_step:
  assumes "1 \<le> m" "m \<le> 11"
  shows "days_before_month y (m + 1) = days_before_month y m + days_in_month y m"
proof -
  from assms have "m = 1 \<or> m = 2 \<or> m = 3 \<or> m = 4 \<or> m = 5 \<or> m = 6 \<or> m = 7 \<or> m = 8 \<or> m = 9
      \<or> m = 10 \<or> m = 11" by arith
  then show ?thesis
    by (elim disjE; simp add: days_before_month_def days_in_month_def DAYS_BEFORE_MONTH_def
        DAYS_IN_MONTH_def)
qed

lemma dim_pos: "1 \<le> m \<Longrightarrow> m \<le> 12 \<Longrightarrow> 28 \<le> days_in_month y m"
  by (simp add: days_in_month_def DAYS_IN_MONTH_def)

lemma dbm_mono:
  "m \<le> m' \<Longrightarrow> 1 \<le> m \<Longrightarrow> m' \<le> 12 \<Longrightarrow> days_before_month y m \<le> days_before_month y m'"
proof (induction m' rule: int_ge_induct)
  case base
  show ?case by simp
next
  case (step i)
  then have "days_before_month y (i + 1) = days_before_month y i + days_in_month y i"
    by (intro dbm_step) simp_all
  moreover have "28 \<le> days_in_month y i" using step by (intro dim_pos) simp_all
  ultimately show ?case using step by simp
qed

lemma dbm_last:
  "days_before_month y 12 + days_in_month y 12 = (if is_leap y then 366 else 365)"
  by (simp add: days_before_month_def days_in_month_def DAYS_BEFORE_MONTH_def DAYS_IN_MONTH_def)

lemma dbm_first: "days_before_month y 1 = 0"
  by (simp add: days_before_month_def DAYS_BEFORE_MONTH_def)

lemma dbm_next:
  assumes "1 \<le> m" "m < m'" "m' \<le> 12"
  shows "days_before_month y m + days_in_month y m \<le> days_before_month y m'"
proof -
  have "days_before_month y (m + 1) = days_before_month y m + days_in_month y m"
    using assms by (intro dbm_step) simp_all
  moreover have "days_before_month y (m + 1) \<le> days_before_month y m'"
    using assms by (intro dbm_mono) simp_all
  ultimately show ?thesis by simp
qed

lemma within_year:
  assumes "valid_date d"
  shows "1 \<le> days_before_month (year d) (month d) + day d"
    and "days_before_month (year d) (month d) + day d \<le> (if is_leap (year d) then 366 else 365)"
proof -
  have m: "1 \<le> month d" "month d \<le> 12" and dd: "1 \<le> day d"
    "day d \<le> days_in_month (year d) (month d)"
    using assms by (simp_all add: valid_date_def)
  have "days_before_month (year d) 1 \<le> days_before_month (year d) (month d)"
    using m by (intro dbm_mono) simp_all
  then show "1 \<le> days_before_month (year d) (month d) + day d"
    using dd by (simp add: dbm_first)
  have "days_before_month (year d) (month d) + days_in_month (year d) (month d)
        \<le> days_before_month (year d) 12 + days_in_month (year d) 12"
  proof (cases "month d = 12")
    case True
    then show ?thesis by simp
  next
    case False
    then have "days_before_month (year d) (month d) + days_in_month (year d) (month d)
        \<le> days_before_month (year d) 12"
      using m by (intro dbm_next) simp_all
    moreover have "28 \<le> days_in_month (year d) 12" by (intro dim_pos) simp_all
    ultimately show ?thesis by simp
  qed
  then show "days_before_month (year d) (month d) + day d
             \<le> (if is_leap (year d) then 366 else 365)"
    using dd(2) unfolding dbm_last by simp
qed

lemma toordinal_year:
  assumes "valid_date d"
  shows "days_before_year (year d) < toordinal d"
    and "toordinal d \<le> days_before_year (year d + 1)"
  using within_year [OF assms] dby_step [of "year d"]
  by (simp_all add: toordinal_def split: if_splits)

lemma dby_1: "days_before_year 1 = 0"
  by (simp add: days_before_year_def)

lemma dby_10000: "days_before_year 10000 = 3652059"
  by (simp add: days_before_year_def)

lemma toordinal_bounds:
  assumes "valid_date d"
  shows "1 \<le> toordinal d" and "toordinal d \<le> 3652059"
proof -
  have y: "1 \<le> year d" "year d \<le> 9999" using assms by (simp_all add: valid_date_def)
  have "days_before_year 1 \<le> days_before_year (year d)" using y by (intro dby_mono)
  then show "1 \<le> toordinal d" using toordinal_year(1) [OF assms] by (simp add: dby_1)
  have "days_before_year (year d + 1) \<le> days_before_year 10000"
    using y by (intro dby_mono) simp
  then show "toordinal d \<le> 3652059" using toordinal_year(2) [OF assms] by (simp add: dby_10000)
qed

lemma date_lt_toordinal:
  assumes "valid_date a" "valid_date b" "date_lt a b"
  shows "toordinal a < toordinal b"
proof -
  consider (y) "year a < year b"
    | (m) "year a = year b" "month a < month b"
    | (d) "year a = year b" "month a = month b" "day a < day b"
    using assms(3) by (auto simp: date_lt_def)
  then show ?thesis
  proof cases
    case y
    then have "days_before_year (year a + 1) \<le> days_before_year (year b)"
      by (intro dby_mono) simp
    then show ?thesis
      using toordinal_year(2) [OF assms(1)] toordinal_year(1) [OF assms(2)] by simp
  next
    case m
    have "days_before_month (year a) (month a) + days_in_month (year a) (month a)
          \<le> days_before_month (year a) (month b)"
      using m assms(1,2) by (intro dbm_next) (simp_all add: valid_date_def)
    then show ?thesis
      using m assms(1,2) by (simp add: toordinal_def valid_date_def)
  next
    case d
    then show ?thesis by (simp add: toordinal_def)
  qed
qed

lemma date_trichotomy: "date_lt a b \<or> date_lt b a \<or> a = b"
  by (cases a; cases b; auto simp: date_lt_def)

lemma date_lt_iff:
  assumes "valid_date a" "valid_date b"
  shows "date_lt a b \<longleftrightarrow> toordinal a < toordinal b"
  using date_lt_toordinal [OF assms] date_lt_toordinal [OF assms(2,1)] date_trichotomy [of a b]
  by auto

lemma toordinal_inj:
  assumes "valid_date a" "valid_date b" "toordinal a = toordinal b"
  shows "a = b"
  using date_lt_toordinal [OF assms(1,2)] date_lt_toordinal [OF assms(2,1)]
    date_trichotomy [of a b] assms(3)
  by auto

lemma ord2ymd_toordinal:
  assumes "valid_date d"
  shows "ord2ymd (toordinal d) = d"
proof -
  note b = toordinal_bounds [OF assms]
  have "valid_date (ord2ymd (toordinal d))" "toordinal (ord2ymd (toordinal d)) = toordinal d"
    using ord2ymd_correct [OF b] by simp_all
  then show ?thesis using assms by (intro toordinal_inj)
qed

section \<open>Weekdays and date arithmetic\<close>

lemma mod7_split:
  fixes x :: int
  obtains q w where "x = 7 * q + w" "0 \<le> w" "w < 7" "x mod 7 = w"
proof -
  have "x = 7 * (x div 7) + x mod 7" by simp
  moreover have "0 \<le> x mod 7" "x mod 7 < 7" by simp_all
  ultimately show ?thesis using that by blast
qed

lemma next_weekday_arith:
  fixes x t w :: int
  assumes "0 \<le> t" "t \<le> 6" "x mod 7 = w"
  defines "k \<equiv> (if t - w \<le> 0 then t - w + 7 else t - w)"
  shows "1 \<le> k \<and> k \<le> 7 \<and> (x + k) mod 7 = t \<and> (w = t \<longrightarrow> k = 7)
         \<and> (\<forall>j. 1 \<le> j \<and> j < k \<longrightarrow> (x + j) mod 7 \<noteq> t)"
proof -
  obtain q w' where x: "x = 7 * q + w'" and w': "0 \<le> w'" "w' < 7" and m: "x mod 7 = w'"
    by (rule mod7_split)
  have ww: "w' = w" using m assms(3) by simp
  have x: "x = 7 * q + w" and w: "0 \<le> w" "w < 7" using x w' ww by simp_all
  have k1: "1 \<le> k" "k \<le> 7" unfolding k_def using w assms(1,2) by simp_all
  have k7: "w = t \<longrightarrow> k = 7" unfolding k_def by simp
  have km: "(x + k) mod 7 = t"
  proof (cases "t - w \<le> 0")
    case True
    then have "x + k = 7 * (q + 1) + t" unfolding k_def using x by simp
    from mod_cases(2) [OF this assms(1)] assms(2) show ?thesis by simp
  next
    case False
    then have "x + k = 7 * q + t" unfolding k_def using x by simp
    from mod_cases(2) [OF this assms(1)] assms(2) show ?thesis by simp
  qed
  have kj: "(x + j) mod 7 \<noteq> t" if j: "1 \<le> j" "j < k" for j
  proof (cases "w + j < 7")
    case True
    have e: "x + j = 7 * q + (w + j)" using x by simp
    have "0 \<le> w + j" using w j by simp
    from mod_cases(2) [OF e this True] have "(x + j) mod 7 = w + j" .
    moreover have "w + j \<noteq> t" using j w unfolding k_def by (simp split: if_splits)
    ultimately show ?thesis by simp
  next
    case False
    have e: "x + j = 7 * (q + 1) + (w + j - 7)" using x by simp
    have a: "0 \<le> w + j - 7" using False by simp
    have b: "w + j - 7 < 7" using w j k1 by simp
    from mod_cases(2) [OF e a b] have "(x + j) mod 7 = w + j - 7" .
    moreover have "w + j - 7 \<noteq> t" using j w False unfolding k_def by (simp split: if_splits)
    ultimately show ?thesis by simp
  qed
  show ?thesis using k1 k7 km kj by blast
qed

lemma weekday_range: "0 \<le> weekday d \<and> weekday d \<le> 6"
proof -
  obtain q w where "0 \<le> w" "w < 7" "(toordinal d + 6) mod 7 = w"
    using mod7_split [of "toordinal d + 6"] by metis
  then show ?thesis by (simp add: weekday_def)
qed

lemma date_add_ok:
  assumes "valid_date d" "0 < toordinal d + k" "toordinal d + k \<le> 3652059"
  shows "date_add d k = Inr (ord2ymd (toordinal d + k))"
    and "valid_date (ord2ymd (toordinal d + k))"
    and "toordinal (ord2ymd (toordinal d + k)) = toordinal d + k"
proof -
  show "date_add d k = Inr (ord2ymd (toordinal d + k))"
    using assms(2,3) by (simp add: date_add_def)
  have "1 \<le> toordinal d + k" using assms(2) by simp
  from ord2ymd_correct [OF this assms(3)]
  show "valid_date (ord2ymd (toordinal d + k))"
    and "toordinal (ord2ymd (toordinal d + k)) = toordinal d + k" by simp_all
qed

lemma find_next_weekday_steps:
  assumes v: "valid_date start_date" and t: "0 \<le> t" "t \<le> 6"
  defines "k \<equiv> (if t - weekday start_date \<le> 0 then t - weekday start_date + 7
                  else t - weekday start_date)"
  shows "1 \<le> k" and "k \<le> 7"
    and "weekday start_date = t \<Longrightarrow> k = 7"
    and "toordinal start_date + k \<le> 3652059 \<Longrightarrow>
         find_next_weekday start_date t = Inr (ord2ymd (toordinal start_date + k))
         \<and> valid_date (ord2ymd (toordinal start_date + k))
         \<and> toordinal (ord2ymd (toordinal start_date + k)) = toordinal start_date + k
         \<and> weekday (ord2ymd (toordinal start_date + k)) = t"
    and "\<not> toordinal start_date + k \<le> 3652059 \<Longrightarrow>
         find_next_weekday start_date t = Inl (OverflowError ''date value out of range'')"
    and "\<And>d. valid_date d \<Longrightarrow> date_lt start_date d \<Longrightarrow> weekday d = t \<Longrightarrow>
         toordinal start_date + k \<le> toordinal d"
proof -
  have wd: "(toordinal start_date + 6) mod 7 = weekday start_date" by (simp add: weekday_def)
  note A = next_weekday_arith [OF t wd, folded k_def]
  show k: "1 \<le> k" "k \<le> 7" using A by simp_all
  show "weekday start_date = t \<Longrightarrow> k = 7" using A by simp
  have td: "timedelta k = Inr k" using k by (simp add: timedelta_def)
  have f: "find_next_weekday start_date t = date_add start_date k"
    unfolding find_next_weekday_def Let_def k_def [symmetric] td by simp
  have pos: "0 < toordinal start_date + k" using toordinal_bounds(1) [OF v] k by simp
  show "find_next_weekday start_date t = Inr (ord2ymd (toordinal start_date + k))
         \<and> valid_date (ord2ymd (toordinal start_date + k))
         \<and> toordinal (ord2ymd (toordinal start_date + k)) = toordinal start_date + k
         \<and> weekday (ord2ymd (toordinal start_date + k)) = t"
    if le: "toordinal start_date + k \<le> 3652059"
  proof -
    note D = date_add_ok [OF v pos le]
    have e: "toordinal start_date + k + 6 = toordinal start_date + 6 + k" by simp
    have "weekday (ord2ymd (toordinal start_date + k)) = (toordinal start_date + k + 6) mod 7"
      unfolding weekday_def D(3) ..
    also have "\<dots> = (toordinal start_date + 6 + k) mod 7" by (simp only: e)
    also have "\<dots> = t" using A by simp
    finally show ?thesis using D f by simp
  qed
  show "find_next_weekday start_date t = Inl (OverflowError ''date value out of range'')"
    if "\<not> toordinal start_date + k \<le> 3652059"
    using that f by (simp add: date_add_def)
  show "toordinal start_date + k \<le> toordinal d"
    if d: "valid_date d" "date_lt start_date d" "weekday d = t" for d
  proof (rule ccontr)
    assume n: "\<not> toordinal start_date + k \<le> toordinal d"
    define j where "j = toordinal d - toordinal start_date"
    have lt: "toordinal start_date < toordinal d" using date_lt_toordinal [OF v d(1,2)] .
    have j: "1 \<le> j" "j < k" using lt n by (simp_all add: j_def)
    have "(toordinal start_date + 6 + j) mod 7 \<noteq> t" using A j by blast
    moreover have "toordinal start_date + 6 + j = toordinal d + 6" by (simp add: j_def)
    ultimately show False using d(3) by (simp add: weekday_def)
  qed
qed

section \<open>The report loop\<close>

lemma date_init_valid: "date_init y m d = Inr r \<Longrightarrow> valid_date r \<and> r = \<lparr>year = y, month = m, day = d\<rparr>"
  by (auto simp: date_init_def valid_date_def split: if_splits)

lemma date_init_error: "date_init y m d = Inl e \<Longrightarrow> \<exists>msg. e = ValueError msg"
  by (auto simp: date_init_def split: if_splits)

lemma strptime_error: "strptime v = Inl e \<Longrightarrow> \<exists>msg. e = ValueError msg"
  by (auto simp: strptime_def split: list.splits if_splits dest: date_init_error)

lemma adjust_for_weekend_returns:
  assumes "valid_date d"
  shows "\<exists>r. adjust_for_weekend d = Inr r"
proof (cases "weekday d \<ge> 5")
  case False
  then show ?thesis by (simp add: adjust_for_weekend_def)
next
  case True
  then have w: "weekday d = 5 \<or> weekday d = 6" using weekday_range [of d] by arith
  define k where "k = (if 0 - weekday d \<le> 0 then 0 - weekday d + 7 else 0 - weekday d)"
  have k: "k \<le> 2" using w by (auto simp: k_def)
  have "toordinal d \<noteq> 3652059" "weekday d = 5 \<longrightarrow> toordinal d \<noteq> 3652058"
    using w by (auto simp: weekday_def)
  then have le: "toordinal d + k \<le> 3652059"
    using toordinal_bounds(2) [OF assms] w by (auto simp: k_def)
  have "find_next_weekday d 0 = Inr (ord2ymd (toordinal d + k))"
    using find_next_weekday_steps(4) [OF assms, of 0, folded k_def, OF _ _ le] by simp
  then show ?thesis using True by (simp add: adjust_for_weekend_def)
qed

lemma upcoming_loop_error:
  "upcoming_loop days today rs acc = Inl e \<Longrightarrow> \<exists>msg. e = ValueError msg"
proof (induction rs arbitrary: acc)
  case Nil
  then show ?case by simp
next
  case (Cons r rs)
  show ?case
  proof (cases "birthday r")
    case None
    then show ?thesis using Cons by simp
  next
    case (Some v)
    show ?thesis
    proof (cases "strptime v")
      case (Inl e1)
      then show ?thesis using Cons.prems Some strptime_error by auto
    next
      case bd: (Inr bd)
      show ?thesis
      proof (cases "replace_year bd (year today)")
        case (Inl e1)
        then show ?thesis
          using Cons.prems Some bd date_init_error by (auto simp: replace_year_def)
      next
        case b1: (Inr b1)
        show ?thesis
        proof (cases "if date_lt b1 today then replace_year bd (year today + 1) else Inr b1")
          case (Inl e1)
          then have "\<exists>msg. e1 = ValueError msg"
            using date_init_error by (auto simp: replace_year_def split: if_splits)
          moreover have "e = e1" using Cons.prems Some bd b1 Inl by simp
          ultimately show ?thesis by simp
        next
          case b2: (Inr b2)
          have "valid_date b2"
            using b1 b2 date_init_valid by (auto simp: replace_year_def split: if_splits)
          then obtain cd where cd: "adjust_for_weekend b2 = Inr cd"
            using adjust_for_weekend_returns by blast
          show ?thesis
            using Cons.prems Some bd b1 b2 cd Cons.IH
            by (auto simp: Let_def split: if_splits)
        qed
      qed
    qed
  qed
qed

lemma upcoming_loop_raises:
  assumes "r \<in> set rs" and "birthday r = Some v" and "strptime v = Inr bd"
    and "\<forall>b1. replace_year bd (year today) = Inr b1 \<longrightarrow>
           date_lt b1 today \<and> (\<exists>e. replace_year bd (year today + 1) = Inl e)"
  shows "\<exists>e. upcoming_loop days today rs acc = Inl e"
  using assms(1)
proof (induction rs arbitrary: acc)
  case Nil
  then show ?case by simp
next
  case (Cons x rs)
  show ?case
  proof (cases "x = r")
    case True
    show ?thesis
    proof (cases "replace_year bd (year today)")
      case (Inl e1)
      then show ?thesis using True assms(2,3) by simp
    next
      case (Inr b1)
      then obtain e1 where "date_lt b1 today" "replace_year bd (year today + 1) = Inl e1"
        using assms(4) by blast
      then show ?thesis using True assms(2,3) Inr by simp
    qed
  next
    case False
    then have in_rs: "r \<in> set rs" using Cons.prems by simp
    have "\<exists>e. upcoming_loop days today rs acc' = Inl e" for acc'
      using Cons.IH [OF in_rs] .
    then show ?thesis
      by (simp add: Let_def split: option.splits sum.splits)
  qed
qed

lemma adjust_for_weekend_value:
  assumes "valid_date d"
  shows "adjust_for_weekend d = Inr (congratulation d)"
proof (cases "weekday d \<ge> 5")
  case False
  then show ?thesis by (simp add: adjust_for_weekend_def congratulation_def)
next
  case True
  then have w: "weekday d = 5 \<or> weekday d = 6" using weekday_range [of d] by arith
  define k where "k = (if 0 - weekday d \<le> 0 then 0 - weekday d + 7 else 0 - weekday d)"
  have k: "k = (if weekday d = 5 then 2 else 1)" using w by (auto simp: k_def)
  have "toordinal d \<noteq> 3652059" "weekday d = 5 \<longrightarrow> toordinal d \<noteq> 3652058"
    using w by (auto simp: weekday_def)
  then have le: "toordinal d + k \<le> 3652059"
    using toordinal_bounds(2) [OF assms] w by (auto simp: k)
  have "find_next_weekday d 0 = Inr (ord2ymd (toordinal d + k))"
    using find_next_weekday_steps(4) [OF assms, of 0, folded k_def, OF _ _ le] by simp
  then show ?thesis using True w by (auto simp: adjust_for_weekend_def congratulation_def k)
qed

lemma replace_year_valid:
  "valid_date (bd\<lparr>year := y\<rparr>) \<Longrightarrow> replace_year bd y = Inr (bd\<lparr>year := y\<rparr>)"
  by (cases bd) (simp add: replace_year_def date_init_def valid_date_def)

lemma upcoming_loop_report:
  assumes "\<forall>r \<in> set rs. \<forall>v. birthday r = Some v \<longrightarrow>
             (\<exists>bd. strptime v = Inr bd \<and> projection_defined today bd)"
  shows "upcoming_loop days today rs acc = Inr (acc @ report days today rs)"
  using assms
proof (induction rs arbitrary: acc)
  case Nil
  then show ?case by (simp add: report_def)
next
  case (Cons r rs)
  have IH: "upcoming_loop days today rs acc' = Inr (acc' @ report days today rs)" for acc'
    using Cons by simp
  show ?case
  proof (cases "birthday r")
    case None
    then show ?thesis using IH by (simp add: report_def report_entries_def)
  next
    case (Some v)
    then obtain bd where bd: "strptime v = Inr bd" and p: "projection_defined today bd"
      using Cons.prems by auto
    have r1: "replace_year bd (year today) = Inr (bd\<lparr>year := year today\<rparr>)"
      using p by (simp add: projection_defined_def replace_year_valid)
    have r2: "(if date_lt (bd\<lparr>year := year today\<rparr>) today
               then replace_year bd (year today + 1) else Inr (bd\<lparr>year := year today\<rparr>))
              = Inr (this_year_date today bd)"
      using p by (auto simp: projection_defined_def this_year_date_def replace_year_valid)
    have a: "adjust_for_weekend (this_year_date today bd)
             = Inr (congratulation (this_year_date today bd))"
      using p by (simp add: projection_defined_def adjust_for_weekend_value)
    show ?thesis
      using Some bd r1 r2 a IH
      by (simp add: report_def report_entries_def days_until_def Let_def)
  qed
qed

lemma get_upcoming_birthdays_report:
  assumes "\<forall>r \<in> snd ` set book. \<forall>v. birthday r = Some v \<longrightarrow>
             (\<exists>bd. strptime v = Inr bd \<and> projection_defined today bd)"
  shows "get_upcoming_birthdays days today book = Inr (report days today (map snd book))"
  unfolding get_upcoming_birthdays_def using upcoming_loop_report [of "map snd book" today days "[]"]
    assms by simp

section \<open>The language of the date format\<close>

lemma re_char_iff: "(t, r) \<in> set (re_char P s) \<longleftrightarrow> (\<exists>c. s = c # r \<and> P c \<and> t = [c])"
  by (cases s) (auto simp: re_char_def)

lemma re_seq_iff:
  "(t, r) \<in> set (re_seq p q s) \<longleftrightarrow>
   (\<exists>t1 r1 t2. (t1, r1) \<in> set (p s) \<and> (t2, r) \<in> set (q r1) \<and> t = t1 @ t2)"
  by (fastforce simp: re_seq_def List.bind_def)

lemma re_alt_iff: "x \<in> set (re_alt p q s) \<longleftrightarrow> x \<in> set (p s) \<or> x \<in> set (q s)"
  by (simp add: re_alt_def)

lemma char_code_iff:
  "(c = CHR ''3'') = ((of_char c :: nat) = 51)"
  "(c = CHR ''1'') = ((of_char c :: nat) = 49)"
  "(c = CHR ''0'') = ((of_char c :: nat) = 48)"
  "(c = CHR '' '') = ((of_char c :: nat) = 32)"
  "(c = CHR ''.'') = ((of_char c :: nat) = 46)"
proof -
  have "((of_char c :: nat) = of_char (CHR ''3'')) = (c = CHR ''3'')"
    "((of_char c :: nat) = of_char (CHR ''1'')) = (c = CHR ''1'')"
    "((of_char c :: nat) = of_char (CHR ''0'')) = (c = CHR ''0'')"
    "((of_char c :: nat) = of_char (CHR '' '')) = (c = CHR '' '')"
    "((of_char c :: nat) = of_char (CHR ''.'')) = (c = CHR ''.'')"
    by (rule of_char_eq_iff)+
  then show "(c = CHR ''3'') = ((of_char c :: nat) = 51)"
    "(c = CHR ''1'') = ((of_char c :: nat) = 49)"
    "(c = CHR ''0'') = ((of_char c :: nat) = 48)"
    "(c = CHR '' '') = ((of_char c :: nat) = 32)"
    "(c = CHR ''.'') = ((of_char c :: nat) = 46)"
    by simp_all
qed

lemma re_digit_iff:
  "(t, r) \<in> set (re_digit s) \<longleftrightarrow> (\<exists>c. s = c # r \<and> is_decimal_digit c \<and> t = [c])"
  by (simp add: re_digit_def re_char_iff in_range_def is_decimal_digit_def Let_def)

lemma re_d_iff: "(t, r) \<in> set (re_d s) \<longleftrightarrow> s = t @ r \<and> day_text t"
proof
  assume "(t, r) \<in> set (re_d s)"
  then show "s = t @ r \<and> day_text t"
    unfolding re_d_def re_alt_iff re_seq_iff re_char_iff re_digit_iff
    by (auto simp: in_range_def is_decimal_digit_def digit_val_def char_code_iff Let_def)
next
  assume a: "s = t @ r \<and> day_text t"
  then consider (one) x where "t = [x]" | (two) x y where "t = [x, y]"
    by (cases t rule: day_text.cases) auto
  then show "(t, r) \<in> set (re_d s)"
  proof cases
    case one
    then show ?thesis using a
      unfolding re_d_def re_alt_iff re_seq_iff re_char_iff re_digit_iff
      by (auto simp: in_range_def is_decimal_digit_def digit_val_def char_code_iff Let_def)
  next
    case two
    then show ?thesis using a
      unfolding re_d_def re_alt_iff re_seq_iff re_char_iff re_digit_iff
      by (auto simp: in_range_def is_decimal_digit_def digit_val_def char_code_iff Let_def)
  qed
qed

lemma re_m_iff: "(t, r) \<in> set (re_m s) \<longleftrightarrow> s = t @ r \<and> month_text t"
proof
  assume "(t, r) \<in> set (re_m s)"
  then show "s = t @ r \<and> month_text t"
    unfolding re_m_def re_alt_iff re_seq_iff re_char_iff
    by (auto simp: in_range_def is_decimal_digit_def digit_val_def char_code_iff Let_def)
next
  assume a: "s = t @ r \<and> month_text t"
  then consider (one) x where "t = [x]" | (two) x y where "t = [x, y]"
    by (cases t rule: month_text.cases) auto
  then show "(t, r) \<in> set (re_m s)"
  proof cases
    case one
    then show ?thesis using a
      unfolding re_m_def re_alt_iff re_seq_iff re_char_iff
      by (auto simp: in_range_def is_decimal_digit_def digit_val_def char_code_iff Let_def)
  next
    case two
    then show ?thesis using a
      unfolding re_m_def re_alt_iff re_seq_iff re_char_iff
      by (auto simp: in_range_def is_decimal_digit_def digit_val_def char_code_iff Let_def)
  qed
qed

lemma length4: "length t = 4 \<longleftrightarrow> (\<exists>a b c d. t = [a, b, c, d])"
  by (auto simp: length_Suc_conv numeral_eq_Suc)

lemma re_Y_iff: "(t, r) \<in> set (re_Y s) \<longleftrightarrow> s = t @ r \<and> year_text t"
  unfolding re_Y_def re_seq_iff re_digit_iff year_text_def length4
  by auto

lemma re_dot_iff: "(t, r) \<in> set (re_dot s) \<longleftrightarrow> s = CHR ''.'' # r \<and> t = ''.''"
  by (auto simp: re_dot_def re_char_iff)

lemma in_bind_pair:
  "x \<in> set (List.bind xs (\<lambda>(a, b). f a b)) \<longleftrightarrow> (\<exists>a b. (a, b) \<in> set xs \<and> x \<in> set (f a b))"
  by (auto simp: set_list_bind)

lemma in_map_pair:
  "x \<in> set (map (\<lambda>(a, b). g a b) xs) \<longleftrightarrow> (\<exists>a b. (a, b) \<in> set xs \<and> x = g a b)"
  by (auto simp: image_iff) force

lemma format_regex_steps:
  "((d, m, y), r) \<in> set (format_regex s) \<longleftrightarrow>
   (\<exists>r1 t1 r2 r3 t2 r4. (d, r1) \<in> set (re_d s) \<and> (t1, r2) \<in> set (re_dot r1)
      \<and> (m, r3) \<in> set (re_m r2) \<and> (t2, r4) \<in> set (re_dot r3) \<and> (y, r) \<in> set (re_Y r4))"
  unfolding format_regex_def in_bind_pair in_map_pair by blast

lemma format_regex_iff:
  "((d, m, y), r) \<in> set (format_regex s) \<longleftrightarrow>
   s = d @ ''.'' @ m @ ''.'' @ y @ r \<and> day_text d \<and> month_text m \<and> year_text y"
proof
  assume "((d, m, y), r) \<in> set (format_regex s)"
  then obtain r1 t1 r2 r3 t2 r4 where
    "(d, r1) \<in> set (re_d s)" "(t1, r2) \<in> set (re_dot r1)" "(m, r3) \<in> set (re_m r2)"
    "(t2, r4) \<in> set (re_dot r3)" "(y, r) \<in> set (re_Y r4)"
    unfolding format_regex_steps by blast
  then have "s = d @ r1" "day_text d" "r1 = CHR ''.'' # r2" "r2 = m @ r3" "month_text m"
    "r3 = CHR ''.'' # r4" "r4 = y @ r" "year_text y"
    by (simp_all add: re_d_iff re_m_iff re_Y_iff re_dot_iff)
  then show "s = d @ ''.'' @ m @ ''.'' @ y @ r \<and> day_text d \<and> month_text m \<and> year_text y"
    by simp
next
  assume a: "s = d @ ''.'' @ m @ ''.'' @ y @ r \<and> day_text d \<and> month_text m \<and> year_text y"
  have "(d, ''.'' @ m @ ''.'' @ y @ r) \<in> set (re_d s)" using a by (simp add: re_d_iff)
  moreover have "(''.'', m @ ''.'' @ y @ r) \<in> set (re_dot (''.'' @ m @ ''.'' @ y @ r))"
    by (simp add: re_dot_iff)
  moreover have "(m, ''.'' @ y @ r) \<in> set (re_m (m @ ''.'' @ y @ r))"
    using a by (simp add: re_m_iff)
  moreover have "(''.'', y @ r) \<in> set (re_dot (''.'' @ y @ r))" by (simp add: re_dot_iff)
  moreover have "(y, r) \<in> set (re_Y (y @ r))" using a by (simp add: re_Y_iff)
  ultimately show "((d, m, y), r) \<in> set (format_regex s)"
    unfolding format_regex_steps by blast
qed

lemma day_text_no_dot: "day_text t \<Longrightarrow> CHR ''.'' \<notin> set t"
  by (cases t rule: day_text.cases) (auto simp: is_decimal_digit_def Let_def)

lemma month_text_no_dot: "month_text t \<Longrightarrow> CHR ''.'' \<notin> set t"
  by (cases t rule: month_text.cases) (auto simp: is_decimal_digit_def Let_def)

lemma split_unique:
  "c \<notin> set xs \<Longrightarrow> c \<notin> set xs' \<Longrightarrow> xs @ c # ys = xs' @ c # ys' \<Longrightarrow> xs = xs' \<and> ys = ys'"
proof (induction xs arbitrary: xs')
  case Nil
  then show ?case by (cases xs') auto
next
  case (Cons x xs)
  then show ?case by (cases xs') auto
qed

lemma format_regex_unique:
  assumes "((d, m, y), r) \<in> set (format_regex s)" and "((d', m', y'), r') \<in> set (format_regex s)"
  shows "d' = d \<and> m' = m \<and> y' = y \<and> r' = r"
proof -
  have a: "s = d @ CHR ''.'' # m @ CHR ''.'' # y @ r" "day_text d" "month_text m" "year_text y"
    using assms(1) by (simp_all add: format_regex_iff)
  have b: "s = d' @ CHR ''.'' # m' @ CHR ''.'' # y' @ r'" "day_text d'" "month_text m'"
    "year_text y'"
    using assms(2) by (simp_all add: format_regex_iff)
  have "d @ CHR ''.'' # (m @ CHR ''.'' # y @ r) = d' @ CHR ''.'' # (m' @ CHR ''.'' # y' @ r')"
    using a(1) b(1) by simp
  then have d: "d = d'" and rest: "m @ CHR ''.'' # y @ r = m' @ CHR ''.'' # y' @ r'"
    using split_unique [OF day_text_no_dot [OF a(2)] day_text_no_dot [OF b(2)]] by blast+
  have m: "m = m'" and rest2: "y @ r = y' @ r'"
    using split_unique [OF month_text_no_dot [OF a(3)] month_text_no_dot [OF b(3)] rest]
    by blast+
  have "length y = length y'" using a(4) b(4) by (simp add: year_text_def)
  then have "y = y' \<and> r = r'" using rest2 by simp
  then show ?thesis using d m by simp
qed

lemma format_regex_head:
  assumes "s = d @ ''.'' @ m @ ''.'' @ y" "day_text d" "month_text m" "year_text y"
  shows "\<exists>other. format_regex s = ((d, m, y), []) # other"
proof -
  have mem: "((d, m, y), []) \<in> set (format_regex s)"
    using assms by (simp add: format_regex_iff)
  then obtain x other where f: "format_regex s = x # other" by (cases "format_regex s") auto
  obtain d' m' y' r' where x: "x = ((d', m', y'), r')" by (cases x) auto
  have "((d', m', y'), r') \<in> set (format_regex s)" using f x by simp
  from format_regex_unique [OF mem this] show ?thesis using f x by simp
qed

lemma strptime_shape:
  assumes "strptime s = Inr dt"
  shows "\<exists>d m y. s = d @ ''.'' @ m @ ''.'' @ y \<and> day_text d \<and> month_text m \<and> year_text y
           \<and> date_init (py_int y) (py_int m) (py_int d) = Inr dt"
proof -
  obtain d m y r other where f: "format_regex s = ((d, m, y), r) # other"
    using assms by (cases "format_regex s") (auto simp: strptime_def)
  then have r: "r = []" and i: "date_init (py_int y) (py_int m) (py_int d) = Inr dt"
    using assms by (auto simp: strptime_def split: if_splits)
  have "((d, m, y), r) \<in> set (format_regex s)" using f by simp
  then show ?thesis using r i by (auto simp: format_regex_iff)
qed

lemma strptime_of_shape:
  assumes "s = d @ ''.'' @ m @ ''.'' @ y" "day_text d" "month_text m" "year_text y"
  shows "strptime s = date_init (py_int y) (py_int m) (py_int d)"
  using format_regex_head [OF assms] by (auto simp: strptime_def)

lemma digit_not_blank: "is_decimal_digit a \<Longrightarrow> a \<noteq> CHR '' ''"
  by (auto simp: is_decimal_digit_def Let_def)

lemma py_int_1: "is_decimal_digit a \<Longrightarrow> py_int [a] = digit_val a"
  by (simp add: py_int_def digit_not_blank)

lemma py_int_2: "is_decimal_digit a \<Longrightarrow> py_int [a, b] = 10 * digit_val a + digit_val b"
  by (simp add: py_int_def digit_not_blank)

lemma py_int_blank: "is_decimal_digit b \<Longrightarrow> py_int [CHR '' '', b] = digit_val b"
  by (simp add: py_int_def digit_not_blank)

lemma py_int_4:
  "is_decimal_digit a \<Longrightarrow>
   py_int [a, b, c, d] = 1000 * digit_val a + 100 * digit_val b + 10 * digit_val c + digit_val d"
  by (simp add: py_int_def digit_not_blank)

lemma digit_char_ok:
  assumes "0 \<le> n" "n \<le> 9"
  shows "is_decimal_digit (digit_char n)" and "digit_val (digit_char n) = n"
proof -
  have "nat n \<le> 9" using assms by simp
  then have "(48 + nat n) mod 256 = 48 + nat n" by simp
  then have c: "(of_char (digit_char n) :: nat) = 48 + nat n"
    by (simp add: digit_char_def)
  show "is_decimal_digit (digit_char n)"
    unfolding is_decimal_digit_def Let_def c using \<open>nat n \<le> 9\<close> by simp
  show "digit_val (digit_char n) = n"
    unfolding digit_val_def c using assms by simp
qed

lemma digits2:
  fixes n :: int
  assumes "0 \<le> n" "n \<le> 99"
  obtains q r where "0 \<le> q" "q \<le> 9" "0 \<le> r" "r \<le> 9" "n = 10 * q + r"
    "n div 10 mod 10 = q" "n mod 10 = r"
proof -
  define q where "q = n div 10"
  define r where "r = n mod 10"
  have n: "n = 10 * q + r" by (simp add: q_def r_def)
  have r: "0 \<le> r" "r < 10" by (simp_all add: r_def)
  have q: "0 \<le> q" "q \<le> 9" using n r assms by linarith+
  have "q = 10 * 0 + q" by simp
  from mod_cases(2) [OF this q(1)] q(2) have "q mod 10 = q" by simp
  moreover have "n div 10 = q" "n mod 10 = r" by (simp_all add: q_def r_def)
  ultimately show ?thesis using that [of q r] n r q by simp
qed

lemma pad2_digits:
  assumes "0 \<le> n" "n \<le> 99"
  obtains a b where "pad2 n = [a, b]" "is_decimal_digit a" "is_decimal_digit b"
    "10 * digit_val a + digit_val b = n"
proof -
  obtain q r where qr: "0 \<le> q" "q \<le> 9" "0 \<le> r" "r \<le> 9" "n = 10 * q + r"
    "n div 10 mod 10 = q" "n mod 10 = r"
    using assms by (rule digits2)
  have "pad2 n = [digit_char q, digit_char r]" unfolding pad2_def qr(6) qr(7) ..
  then show ?thesis
    using that [of "digit_char q" "digit_char r"] digit_char_ok [OF qr(1,2)]
      digit_char_ok [OF qr(3,4)] qr(5)
    by simp
qed

lemma pad2_day: "1 \<le> n \<Longrightarrow> n \<le> 31 \<Longrightarrow> day_text (pad2 n) \<and> py_int (pad2 n) = n"
proof -
  assume n: "1 \<le> n" "n \<le> 31"
  then obtain a b where "pad2 n = [a, b]" "is_decimal_digit a" "is_decimal_digit b"
    "10 * digit_val a + digit_val b = n"
    using pad2_digits [of n] by auto
  then show ?thesis using n by (simp add: py_int_2)
qed

lemma pad2_month: "1 \<le> n \<Longrightarrow> n \<le> 12 \<Longrightarrow> month_text (pad2 n) \<and> py_int (pad2 n) = n"
proof -
  assume n: "1 \<le> n" "n \<le> 12"
  then obtain a b where "pad2 n = [a, b]" "is_decimal_digit a" "is_decimal_digit b"
    "10 * digit_val a + digit_val b = n"
    using pad2_digits [of n] by auto
  then show ?thesis using n by (simp add: py_int_2)
qed

lemma digits4:
  fixes n :: int
  assumes "0 \<le> n" "n \<le> 9999"
  obtains a b c d where "0 \<le> a" "a \<le> 9" "0 \<le> b" "b \<le> 9" "0 \<le> c" "c \<le> 9" "0 \<le> d" "d \<le> 9"
    "n = 1000 * a + 100 * b + 10 * c + d"
    "n div 1000 mod 10 = a" "n div 100 mod 10 = b" "n div 10 mod 10 = c" "n mod 10 = d"
proof -
  define q1 where "q1 = n div 10"
  define d where "d = n mod 10"
  define q2 where "q2 = q1 div 10"
  define c where "c = q1 mod 10"
  define q3 where "q3 = q2 div 10"
  define b where "b = q2 mod 10"
  have e: "n = 10 * q1 + d" "q1 = 10 * q2 + c" "q2 = 10 * q3 + b"
    by (simp_all add: q1_def d_def q2_def c_def q3_def b_def)
  have r: "0 \<le> d" "d < 10" "0 \<le> c" "c < 10" "0 \<le> b" "b < 10"
    by (simp_all add: d_def c_def b_def)
  have q3: "0 \<le> q3" "q3 \<le> 9" using e r assms by linarith+
  have n100: "n = 100 * q2 + (10 * c + d)" using e by simp
  have n1000: "n = 1000 * q3 + (100 * b + 10 * c + d)" using e by simp
  have d100: "n div 100 = q2" using r by (intro mod_cases(1) [OF n100]) simp_all
  have d1000: "n div 1000 = q3" using r by (intro mod_cases(1) [OF n1000]) simp_all
  have "q3 = 10 * 0 + q3" by simp
  from mod_cases(2) [OF this q3(1)] q3(2) have m3: "q3 mod 10 = q3" by simp
  have "n div 1000 mod 10 = q3" unfolding d1000 by (rule m3)
  moreover have "n div 100 mod 10 = b" unfolding d100 by (simp add: b_def)
  moreover have "n div 10 mod 10 = c" unfolding q1_def [symmetric] by (simp add: c_def)
  moreover have "n mod 10 = d" by (simp add: d_def)
  moreover have "n = 1000 * q3 + 100 * b + 10 * c + d" using n1000 by simp
  moreover have "b \<le> 9" "c \<le> 9" "d \<le> 9" using r by simp_all
  ultimately show ?thesis using that [of q3 b c d] q3 r by blast
qed

lemma pad4_year:
  assumes "0 \<le> n" "n \<le> 9999"
  shows "year_text (pad4 n) \<and> py_int (pad4 n) = n"
proof -
  obtain a b c d where x: "0 \<le> a" "a \<le> 9" "0 \<le> b" "b \<le> 9" "0 \<le> c" "c \<le> 9" "0 \<le> d" "d \<le> 9"
    "n = 1000 * a + 100 * b + 10 * c + d"
    "n div 1000 mod 10 = a" "n div 100 mod 10 = b" "n div 10 mod 10 = c" "n mod 10 = d"
    using assms by (rule digits4)
  have p: "pad4 n = [digit_char a, digit_char b, digit_char c, digit_char d]"
    unfolding pad4_def x(10) x(11) x(12) x(13) ..
  note A = digit_char_ok [OF x(1,2)] and B = digit_char_ok [OF x(3,4)]
    and C = digit_char_ok [OF x(5,6)] and D = digit_char_ok [OF x(7,8)]
  show ?thesis
    unfolding p using A B C D x(9) by (simp add: year_text_def py_int_4)
qed

lemma dim_le_31: "days_in_month y m \<le> 31"
  by (simp add: days_in_month_def DAYS_IN_MONTH_def)

lemma strptime_DD_MM_YYYY:
  assumes "valid_date d"
  shows "strptime (DD_MM_YYYY d) = Inr d"
proof -
  have v: "1 \<le> year d" "year d \<le> 9999" "1 \<le> month d" "month d \<le> 12" "1 \<le> day d"
    "day d \<le> days_in_month (year d) (month d)"
    using assms by (simp_all add: valid_date_def)
  have d31: "day d \<le> 31" using v(6) dim_le_31 [of "year d" "month d"] by simp
  note D = pad2_day [OF v(5) d31] and M = pad2_month [OF v(3,4)]
  have "0 \<le> year d" using v(1) by simp
  note Y = pad4_year [OF this v(2)]
  have "strptime (DD_MM_YYYY d)
        = date_init (py_int (pad4 (year d))) (py_int (pad2 (month d))) (py_int (pad2 (day d)))"
    using D M Y by (intro strptime_of_shape) (simp_all add: DD_MM_YYYY_def)
  also have "\<dots> = Inr d" using D M Y v by (simp add: date_init_def)
  finally show ?thesis .
qed

lemma length_DD_MM_YYYY: "length (DD_MM_YYYY d) = 10"
  by (simp add: DD_MM_YYYY_def pad2_def pad4_def)

lemma format_Y_four_digits:
  assumes "1000 \<le> n" "n \<le> 9999"
  shows "format_Y n = pad4 n"
proof -
  have "0 \<le> n" using assms by simp
  then obtain a b c d where x: "0 \<le> a" "a \<le> 9" "0 \<le> b" "b \<le> 9" "0 \<le> c" "c \<le> 9" "0 \<le> d" "d \<le> 9"
    "n = 1000 * a + 100 * b + 10 * c + d"
    "n div 1000 mod 10 = a" "n div 100 mod 10 = b" "n div 10 mod 10 = c" "n mod 10 = d"
    using assms(2) digits4 [of n] by metis
  have a1: "1 \<le> a" using x(1-9) assms(1) by linarith
  have p: "pad4 n = [digit_char a, digit_char b, digit_char c, digit_char d]"
    unfolding pad4_def x(10) x(11) x(12) x(13) ..
  have "digit_val (digit_char a) = a" using x(1,2) by (rule digit_char_ok(2))
  moreover have "digit_val (CHR ''0'') = 0" by (simp add: digit_val_def)
  ultimately have "digit_char a \<noteq> CHR ''0''" using a1 by auto
  then show ?thesis unfolding format_Y_def p by simp
qed

lemma strftime_DD_MM_YYYY:
  "valid_date d \<Longrightarrow> 1000 \<le> year d \<Longrightarrow> strftime d = DD_MM_YYYY d"
  by (simp add: strftime_def DD_MM_YYYY_def format_Y_four_digits valid_date_def)

lemma date_init_of_valid:
  "valid_date \<lparr>year = y, month = m, day = d\<rparr> \<Longrightarrow>
   date_init y m d = Inr \<lparr>year = y, month = m, day = d\<rparr>"
  by (simp add: date_init_def valid_date_def)

lemma Birthday_of_strptime: "strptime v = Inr d \<Longrightarrow> Birthday v = Inr v"
  by (simp add: Birthday_def)

lemma Birthday_Inr: "Birthday v = Inr b \<Longrightarrow> b = v \<and> (\<exists>d. strptime v = Inr d)"
  by (auto simp: Birthday_def split: sum.splits error.splits)

lemma Birthday_Inl:
  "strptime v = Inl e \<Longrightarrow> Birthday v = Inl (ValueError ''Invalid date format. Use DD.MM.YYYY.'')"
  using strptime_error [of v e] by (auto simp: Birthday_def)

text \<open>
  What \<open>Birthday\<close> accepts, for strings of characters below U+0100: a day, a dot, a month,
  a dot and a year that are a real calendar date. Every valid date written as DD.MM.YYYY is
  among them and is stored as it was written.
\<close>

lemma Birthday_iff:
  "Birthday raw = Inr raw \<longleftrightarrow>
     (\<exists>d m y. raw = d @ ''.'' @ m @ ''.'' @ y \<and> day_text d \<and> month_text m \<and> year_text y
        \<and> valid_date \<lparr>year = py_int y, month = py_int m, day = py_int d\<rparr>)"
proof
  assume "Birthday raw = Inr raw"
  then obtain d0 where "strptime raw = Inr d0" using Birthday_Inr by blast
  from strptime_shape [OF this] obtain d m y where
    s: "raw = d @ ''.'' @ m @ ''.'' @ y" "day_text d" "month_text m" "year_text y"
    and i: "date_init (py_int y) (py_int m) (py_int d) = Inr d0" by blast
  from date_init_valid [OF i]
  have "valid_date \<lparr>year = py_int y, month = py_int m, day = py_int d\<rparr>" by blast
  with s show "\<exists>d m y. raw = d @ ''.'' @ m @ ''.'' @ y \<and> day_text d \<and> month_text m
      \<and> year_text y \<and> valid_date \<lparr>year = py_int y, month = py_int m, day = py_int d\<rparr>"
    by blast
next
  assume "\<exists>d m y. raw = d @ ''.'' @ m @ ''.'' @ y \<and> day_text d \<and> month_text m
      \<and> year_text y \<and> valid_date \<lparr>year = py_int y, month = py_int m, day = py_int d\<rparr>"
  then obtain d m y where
    s: "raw = d @ ''.'' @ m @ ''.'' @ y" "day_text d" "month_text m" "year_text y"
    and v: "valid_date \<lparr>year = py_int y, month = py_int m, day = py_int d\<rparr>" by blast
  have "strptime raw = date_init (py_int y) (py_int m) (py_int d)"
    using s by (rule strptime_of_shape)
  then have "strptime raw = Inr \<lparr>year = py_int y, month = py_int m, day = py_int d\<rparr>"
    using date_init_of_valid [OF v] by simp
  then show "Birthday raw = Inr raw" by (rule Birthday_of_strptime)
qed

lemma Birthday_raises:
  "Birthday raw \<noteq> Inr raw \<Longrightarrow>
   Birthday raw = Inl (ValueError ''Invalid date format. Use DD.MM.YYYY.'')"
proof (cases "strptime raw")
  case (Inl e)
  then show ?thesis by (rule Birthday_Inl)
next
  case (Inr d)
  assume "Birthday raw \<noteq> Inr raw"
  then show ?thesis using Inr Birthday_of_strptime by blast
qed

lemma Birthday_DD_MM_YYYY:
  "valid_date d \<Longrightarrow> Birthday (DD_MM_YYYY d) = Inr (DD_MM_YYYY d)"
  using strptime_DD_MM_YYYY [of d] by (simp add: Birthday_of_strptime)

section \<open>Phones of a record\<close>

lemma find_phone_None: "find_phone n r = None \<longleftrightarrow> n \<notin> set (phones r)"
  by (auto simp: find_phone_def find_None_iff)

lemma find_phone_Some: "n \<in> set (phones r) \<Longrightarrow> find_phone n r = Some n"
proof -
  assume "n \<in> set (phones r)"
  then have "find_phone n r \<noteq> None" by (simp add: find_phone_None)
  then obtain p where p: "find_phone n r = Some p" by blast
  then have "p = n" by (auto simp: find_phone_def find_Some_iff)
  with p show ?thesis by simp
qed

lemma remove1_first: "x \<notin> set xs \<Longrightarrow> remove1 x (xs @ x # ys) = xs @ ys"
  by (induction xs) auto

lemma remove_phone_present:
  "n \<in> set (phones r) \<Longrightarrow> remove_phone n r = (Inr (), r\<lparr>phones := remove1 n (phones r)\<rparr>)"
  by (simp add: remove_phone_def find_phone_Some list_remove_def)

lemma remove_phone_absent:
  "n \<notin> set (phones r) \<Longrightarrow>
   remove_phone n r = (Inl (ValueError ''list.remove(x): x not in list''), r)"
  by (simp add: remove_phone_def find_phone_None [THEN iffD2] list_remove_def)

lemma add_phone_raises: "fst (add_phone p r) = Inl e \<Longrightarrow> snd (add_phone p r) = r"
  by (simp add: add_phone_def split: sum.splits)

lemma remove_phone_raises: "fst (remove_phone p r) = Inl e \<Longrightarrow> snd (remove_phone p r) = r"
  by (cases "p \<in> set (phones r)") (simp_all add: remove_phone_present remove_phone_absent)

lemma edit_phone_raises:
  assumes "fst (edit_phone old new r) = Inl e"
  shows "snd (edit_phone old new r) = r"
proof (cases "old \<in> set (phones r)")
  case False
  then show ?thesis by (simp add: edit_phone_def find_phone_None [THEN iffD2])
next
  case True
  show ?thesis
  proof (cases "Phone new")
    case (Inl e')
    with True show ?thesis by (simp add: edit_phone_def find_phone_Some add_phone_def)
  next
    case (Inr p)
    then have "edit_phone old new r = remove_phone old (r\<lparr>phones := phones r @ [p]\<rparr>)"
      using True by (simp add: edit_phone_def find_phone_Some add_phone_def)
    moreover have "old \<in> set (phones (r\<lparr>phones := phones r @ [p]\<rparr>))" using True by simp
    ultimately show ?thesis using assms by (simp add: remove_phone_present)
  qed
qed

lemma add_birthday_raises: "fst (add_birthday b r) = Inl e \<Longrightarrow> snd (add_birthday b r) = r"
  by (simp add: add_birthday_def split: sum.splits)

section \<open>What a phone accepts\<close>

lemma isdigit_char_iff:
  "isdigit_char c \<longleftrightarrow> is_decimal_digit c \<or> c = CHR 0xB2 \<or> c = CHR 0xB3 \<or> c = CHR 0xB9"
proof -
  have "((of_char c :: nat) = of_char (CHR 0xB2)) = (c = CHR 0xB2)"
    "((of_char c :: nat) = of_char (CHR 0xB3)) = (c = CHR 0xB3)"
    "((of_char c :: nat) = of_char (CHR 0xB9)) = (c = CHR 0xB9)"
    by (rule of_char_eq_iff)+
  then have e: "((of_char c :: nat) = 178) = (c = CHR 0xB2)"
    "((of_char c :: nat) = 179) = (c = CHR 0xB3)"
    "((of_char c :: nat) = 185) = (c = CHR 0xB9)"
    by simp_all
  show ?thesis unfolding isdigit_char_def is_decimal_digit_def Let_def e by blast
qed

lemma Phone_iff: "Phone raw = Inr raw \<longleftrightarrow> length raw = 10 \<and> list_all isdigit_char raw"
  by (auto simp: Phone_def isdigit_def)

lemma Phone_raises:
  "length raw \<noteq> 10 \<or> \<not> list_all isdigit_char raw \<Longrightarrow>
   Phone raw = Inl (ValueError ''Phone must be 10 digits.'')"
  by (auto simp: Phone_def isdigit_def)

lemma Phone_decimal:
  "length raw = 10 \<Longrightarrow> list_all is_decimal_digit raw \<Longrightarrow> Phone raw = Inr raw"
  unfolding Phone_iff by (auto simp: list_all_iff isdigit_char_iff)

section \<open>Keys of the book\<close>

lemma map_fst_dict_setitem:
  "map fst (dict_setitem k v ps) = (if k \<in> set (map fst ps) then map fst ps else map fst ps @ [k])"
  by (induction ps) auto

lemma distinct_dict_setitem:
  "distinct (map fst ps) \<Longrightarrow> distinct (map fst (dict_setitem k v ps))"
  by (simp add: map_fst_dict_setitem)

lemma map_of_dict_setitem: "map_of (dict_setitem k v ps) = (map_of ps)(k \<mapsto> v)"
  by (induction ps) (auto simp: fun_eq_iff)

lemma dict_setitem_twice: "dict_setitem k v (dict_setitem k w ps) = dict_setitem k v ps"
  by (induction ps) auto

lemma count_key_distinct:
  "distinct (map fst ps) \<Longrightarrow> k \<in> set (map fst ps) \<Longrightarrow>
   length (filter (\<lambda>p. fst p = k) ps) = 1"
proof (induction ps)
  case Nil
  then show ?case by simp
next
  case (Cons p ps)
  show ?case
  proof (cases "fst p = k")
    case True
    then have "k \<notin> set (map fst ps)" using Cons.prems by auto
    then have "filter (\<lambda>p. fst p = k) ps = []" by (auto simp: filter_empty_conv)
    with True show ?thesis by simp
  next
    case False
    with Cons show ?thesis by auto
  qed
qed

lemma length_dict_setitem:
  "length (dict_setitem k v ps) = (if k \<in> set (map fst ps) then length ps else Suc (length ps))"
  by (induction ps) auto

lemma distinct_delete: "distinct (map fst book) \<Longrightarrow> distinct (map fst (delete n book))"
  by (simp add: delete_def distinct_map_filter)

lemma map_unchanged:
  "distinct (map fst book) \<Longrightarrow> map_of book n = Some r \<Longrightarrow>
   map (\<lambda>p. if fst p = n then (fst p, r) else p) book = book"
proof (induction book)
  case Nil
  then show ?case by simp
next
  case (Cons p book)
  show ?case
  proof (cases "fst p = n")
    case True
    then have "p = (n, r)" using Cons.prems(2) by (cases p) simp
    moreover have "n \<notin> fst ` set book" using True Cons.prems(1) by auto
    then have "map (\<lambda>p. if fst p = n then (fst p, r) else p) book = book"
      by (intro map_idI) auto
    ultimately show ?thesis by simp
  next
    case False
    then show ?thesis using Cons by (cases p) auto
  qed
qed

lemma on_record_raises:
  assumes "distinct (map fst book)"
    and "\<And>r e. fst (method r) = Inl e \<Longrightarrow> snd (method r) = r"
    and "method_outcome (on_record n method book) = (Raised e, book')"
  shows "book' = book"
proof (cases "find_book n book")
  case None
  then show ?thesis using assms(3) by (simp add: on_record_def method_outcome_def)
next
  case (Some r)
  obtain res r' where m: "method r = (res, r')" by (cases "method r")
  then have res: "res = Inl e"
    using assms(3) Some by (cases res) (simp_all add: on_record_def method_outcome_def)
  then have "r' = r" using assms(2) [of r e] m by simp
  then have "on_record n method book = (Some res, book)"
    using Some m map_unchanged [OF assms(1), of n r]
    by (simp add: on_record_def find_book_def)
  then show ?thesis using assms(3) res by (simp add: method_outcome_def)
qed

section \<open>Properties of the address book\<close>

text \<open>
  C1 at a book the code can hold: Ann's birthday is 29.02.2000, Bob's is 12.06.1990, and
  today is 10.06.2023. Both birthdays are valid. Bob's birthday is two days ahead, and a
  book with Bob alone reports him with the date 12.06.2023; with Ann in the book the call
  raises \<open>ValueError\<close> at Ann's record (2023 has no 29 February) and reports nobody.
  Where every projection exists, the loop returns the report of the specification
  (lemma \<open>get_upcoming_birthdays_report\<close>).
\<close>

theorem upcoming_birthdays_leap_day_failure:
  "Birthday ''29.02.2000'' = Inr ''29.02.2000''
   \<and> Birthday ''12.06.1990'' = Inr ''12.06.1990''
   \<and> get_upcoming_birthdays 7 \<lparr>year = 2023, month = 6, day = 10\<rparr>
        [(''Bob'', \<lparr>name = ''Bob'', phones = [], birthday = Some ''12.06.1990''\<rparr>)]
      = Inr [[(''name'', ''Bob''), (''congratulation_date'', ''12.06.2023'')]]
   \<and> get_upcoming_birthdays 7 \<lparr>year = 2023, month = 6, day = 10\<rparr>
        [(''Ann'', \<lparr>name = ''Ann'', phones = [], birthday = Some ''29.02.2000''\<rparr>),
         (''Bob'', \<lparr>name = ''Bob'', phones = [], birthday = Some ''12.06.1990''\<rparr>)]
      = Inl (ValueError ''day is out of range for month'')"
  by code_simp

text \<open>
  C2: for every date \<open>d\<close>, \<open>adjust_for_weekend d\<close> returns the Monday two days later
  when \<open>d\<close> is a Saturday (weekday 5), the Monday one day later when \<open>d\<close> is a Sunday
  (weekday 6), and \<open>d\<close> itself on Monday to Friday. The last day of the calendar is a
  Friday, so the shift never leaves the range of dates. For a record with the birthday
  15.06.1990 and today = 13.06.2024 the report gives the congratulation date 17.06.2024.
\<close>

theorem adjust_for_weekend_shift:
  assumes "valid_date d"
  shows "(weekday d = 5 \<longrightarrow>
            (\<exists>r. adjust_for_weekend d = Inr r \<and> valid_date r \<and> weekday r = 0
                 \<and> date_diff_days r d = 2))
         \<and> (weekday d = 6 \<longrightarrow>
              (\<exists>r. adjust_for_weekend d = Inr r \<and> valid_date r \<and> weekday r = 0
                   \<and> date_diff_days r d = 1))
         \<and> (weekday d \<le> 4 \<longrightarrow> adjust_for_weekend d = Inr d)
         \<and> get_upcoming_birthdays 7 \<lparr>year = 2024, month = 6, day = 13\<rparr>
              [(''Ann'', \<lparr>name = ''Ann'', phones = [], birthday = Some ''15.06.1990''\<rparr>)]
            = Inr [[(''name'', ''Ann''), (''congratulation_date'', ''17.06.2024'')]]"
proof (intro conjI impI)
  assume w: "weekday d = 5"
  have k: "(if 0 - weekday d \<le> 0 then 0 - weekday d + 7 else 0 - weekday d) = 2"
    using w by simp
  have "toordinal d \<noteq> 3652059" "toordinal d \<noteq> 3652058"
    using w by (auto simp: weekday_def)
  then have le: "toordinal d + 2 \<le> 3652059" using toordinal_bounds(2) [OF assms] by simp
  note S = find_next_weekday_steps(4) [OF assms, of 0, unfolded k, OF _ _ le]
  have "adjust_for_weekend d = find_next_weekday d 0" using w by (simp add: adjust_for_weekend_def)
  then show "\<exists>r. adjust_for_weekend d = Inr r \<and> valid_date r \<and> weekday r = 0
                 \<and> date_diff_days r d = 2"
    using S by (simp add: date_diff_days_def)
next
  assume w: "weekday d = 6"
  have k: "(if 0 - weekday d \<le> 0 then 0 - weekday d + 7 else 0 - weekday d) = 1"
    using w by simp
  have "toordinal d \<noteq> 3652059" using w by (auto simp: weekday_def)
  then have le: "toordinal d + 1 \<le> 3652059" using toordinal_bounds(2) [OF assms] by simp
  note S = find_next_weekday_steps(4) [OF assms, of 0, unfolded k, OF _ _ le]
  have "adjust_for_weekend d = find_next_weekday d 0" using w by (simp add: adjust_for_weekend_def)
  then show "\<exists>r. adjust_for_weekend d = Inr r \<and> valid_date r \<and> weekday r = 0
                 \<and> date_diff_days r d = 1"
    using S by (simp add: date_diff_days_def)
next
  assume "weekday d \<le> 4"
  then show "adjust_for_weekend d = Inr d" by (simp add: adjust_for_weekend_def)
next
  show "get_upcoming_birthdays 7 \<lparr>year = 2024, month = 6, day = 13\<rparr>
          [(''Ann'', \<lparr>name = ''Ann'', phones = [], birthday = Some ''15.06.1990''\<rparr>)]
        = Inr [[(''name'', ''Ann''), (''congratulation_date'', ''17.06.2024'')]]"
    by code_simp
qed

theorem adjust_for_weekend_shift_witness:
  "valid_date \<lparr>year = 2024, month = 6, day = 15\<rparr>
   \<and> weekday \<lparr>year = 2024, month = 6, day = 15\<rparr> = 5
   \<and> adjust_for_weekend \<lparr>year = 2024, month = 6, day = 15\<rparr>
      = Inr \<lparr>year = 2024, month = 6, day = 17\<rparr>
   \<and> weekday \<lparr>year = 2024, month = 6, day = 17\<rparr> = 0
   \<and> date_diff_days \<lparr>year = 2024, month = 6, day = 17\<rparr> \<lparr>year = 2024, month = 6, day = 15\<rparr> = 2"
proof -
  have v: "valid_date \<lparr>year = 2024, month = 6, day = 15\<rparr>" by code_simp
  have w: "weekday \<lparr>year = 2024, month = 6, day = 15\<rparr> = 5" by code_simp
  have e: "adjust_for_weekend \<lparr>year = 2024, month = 6, day = 15\<rparr>
           = Inr \<lparr>year = 2024, month = 6, day = 17\<rparr>" by code_simp
  from adjust_for_weekend_shift [OF v] w e v show ?thesis by simp
qed

text \<open>
  C3 at strings the code accepts: \<open>str.isdigit\<close> is true of the superscript digit U+00B2,
  which is no decimal digit, so ten of them make a \<open>Phone\<close>, and so do nine decimal
  digits followed by one of them, although the constructor means to accept ten digits of a
  phone number only and says so in its message. A string of another length, or with a
  character that \<open>str.isdigit\<close> rejects, raises, and ten decimal digits are accepted and
  stored as they are (lemmas \<open>Phone_iff\<close>, \<open>Phone_raises\<close> and \<open>Phone_decimal\<close>).
\<close>

theorem Phone_accepts_superscript_digits:
  "\<not> is_decimal_digit (CHR 0xB2)
   \<and> length [CHR 0xB2, CHR 0xB2, CHR 0xB2, CHR 0xB2, CHR 0xB2, CHR 0xB2, CHR 0xB2, CHR 0xB2,
              CHR 0xB2, CHR 0xB2] = 10
   \<and> Phone [CHR 0xB2, CHR 0xB2, CHR 0xB2, CHR 0xB2, CHR 0xB2, CHR 0xB2, CHR 0xB2, CHR 0xB2,
            CHR 0xB2, CHR 0xB2]
      = Inr [CHR 0xB2, CHR 0xB2, CHR 0xB2, CHR 0xB2, CHR 0xB2, CHR 0xB2, CHR 0xB2, CHR 0xB2,
             CHR 0xB2, CHR 0xB2]
   \<and> Phone (''123456789'' @ [CHR 0xB2]) = Inr (''123456789'' @ [CHR 0xB2])
   \<and> Phone ''0123456789'' = Inr ''0123456789''
   \<and> Phone ''012345678a'' = Inl (ValueError ''Phone must be 10 digits.'')"
  by (simp add: Phone_def isdigit_def isdigit_char_def is_decimal_digit_def)

text \<open>
  C4 at strings the code accepts: \<open>1.2.2024\<close> has a one-digit day and a one-digit month
  and is not of the form DD.MM.YYYY, which for that date is \<open>01.02.2024\<close>; yet
  \<open>Birthday\<close> accepts it and stores it as it is, and likewise with a blank before the day,
  because \<open>strptime\<close> reads \<open>%d\<close> and \<open>%m\<close> with one digit too. The constructor
  means to accept DD.MM.YYYY only and says so in its message. A date that does not exist,
  such as 31.02.2024, raises, and every valid date written as DD.MM.YYYY is accepted and
  stored as written (lemmas \<open>Birthday_raises\<close> and \<open>Birthday_DD_MM_YYYY\<close>).
\<close>

theorem Birthday_accepts_short_fields:
  "length ''1.2.2024'' \<noteq> 10
   \<and> Birthday ''1.2.2024'' = Inr ''1.2.2024''
   \<and> strptime ''1.2.2024'' = Inr \<lparr>year = 2024, month = 2, day = 1\<rparr>
   \<and> DD_MM_YYYY \<lparr>year = 2024, month = 2, day = 1\<rparr> = ''01.02.2024''
   \<and> Birthday '' 1.2.2024'' = Inr '' 1.2.2024''
   \<and> Birthday ''01.02.2024'' = Inr ''01.02.2024''
   \<and> Birthday ''31.02.2024'' = Inl (ValueError ''Invalid date format. Use DD.MM.YYYY.'')"
  by code_simp

text \<open>
  C5: a birthday on 29 February is a valid \<open>Birthday\<close>, and a book that holds a record
  with such a birthday makes \<open>get_upcoming_birthdays\<close> raise \<open>ValueError\<close> whenever the
  year of today is not a leap year, and also when it is one but 29 February of it lies
  before today, so that the birthday is projected onto the next year, which is none. The
  report is not total over records with valid birthdays.
\<close>

theorem leap_day_birthday_raises:
  assumes "Birthday v = Inr b" and "strptime b = Inr bd" and "month bd = 2" and "day bd = 29"
    and "r \<in> snd ` set book" and "birthday r = Some b"
    and "\<not> is_leap (year today)
         \<or> (date_lt \<lparr>year = year today, month = 2, day = 29\<rparr> today
            \<and> \<not> is_leap (year today + 1))"
  shows "\<exists>msg. get_upcoming_birthdays days today book = Inl (ValueError msg)"
proof -
  have p: "\<forall>b1. replace_year bd (year today) = Inr b1 \<longrightarrow>
             date_lt b1 today \<and> (\<exists>e. replace_year bd (year today + 1) = Inl e)"
    using assms(3,4,7)
    by (auto simp: replace_year_def date_init_def days_in_month_def DAYS_IN_MONTH_def
        split: if_splits)
  have "r \<in> set (map snd book)" using assms(5) by simp
  from upcoming_loop_raises [OF this assms(6,2) p]
  obtain e where e: "get_upcoming_birthdays days today book = Inl e"
    unfolding get_upcoming_birthdays_def by blast
  then have "\<exists>msg. e = ValueError msg"
    unfolding get_upcoming_birthdays_def by (rule upcoming_loop_error)
  with e show ?thesis by blast
qed

theorem leap_day_birthday_raises_witness:
  "Birthday ''29.02.2000'' = Inr ''29.02.2000''
   \<and> strptime ''29.02.2000'' = Inr \<lparr>year = 2000, month = 2, day = 29\<rparr>
   \<and> \<not> is_leap (year \<lparr>year = 2023, month = 2, day = 25\<rparr>)
   \<and> (\<exists>msg. get_upcoming_birthdays 7 \<lparr>year = 2023, month = 2, day = 25\<rparr>
         [(''Ann'', \<lparr>name = ''Ann'', phones = [], birthday = Some ''29.02.2000''\<rparr>)]
        = Inl (ValueError msg))
   \<and> is_leap (year \<lparr>year = 2024, month = 3, day = 1\<rparr>)
   \<and> date_lt \<lparr>year = 2024, month = 2, day = 29\<rparr> \<lparr>year = 2024, month = 3, day = 1\<rparr>
   \<and> (\<exists>msg. get_upcoming_birthdays 7 \<lparr>year = 2024, month = 3, day = 1\<rparr>
         [(''Ann'', \<lparr>name = ''Ann'', phones = [], birthday = Some ''29.02.2000''\<rparr>)]
        = Inl (ValueError msg))"
proof -
  let ?r = "\<lparr>name = ''Ann'', phones = [], birthday = Some ''29.02.2000''\<rparr>"
  have b: "Birthday ''29.02.2000'' = Inr ''29.02.2000''" by code_simp
  have s: "strptime ''29.02.2000'' = Inr \<lparr>year = 2000, month = 2, day = 29\<rparr>" by code_simp
  have m: "month \<lparr>year = 2000, month = 2, day = 29\<rparr> = 2"
    and d: "day \<lparr>year = 2000, month = 2, day = 29\<rparr> = 29" by simp_all
  have i: "?r \<in> snd ` set [(''Ann'', ?r)]" and f: "birthday ?r = Some ''29.02.2000''"
    by simp_all
  have n: "\<not> is_leap (year \<lparr>year = 2023, month = 2, day = 25\<rparr>)" by code_simp
  have l: "is_leap (year \<lparr>year = 2024, month = 3, day = 1\<rparr>)" by code_simp
  have l1: "\<not> is_leap (year \<lparr>year = 2024, month = 3, day = 1\<rparr> + 1)" by code_simp
  have lt: "date_lt \<lparr>year = year \<lparr>year = 2024, month = 3, day = 1\<rparr>, month = 2, day = 29\<rparr>
              \<lparr>year = 2024, month = 3, day = 1\<rparr>" by code_simp
  have c1: "\<not> is_leap (year \<lparr>year = 2023, month = 2, day = 25\<rparr>)
         \<or> (date_lt \<lparr>year = year \<lparr>year = 2023, month = 2, day = 25\<rparr>, month = 2, day = 29\<rparr>
               \<lparr>year = 2023, month = 2, day = 25\<rparr>
            \<and> \<not> is_leap (year \<lparr>year = 2023, month = 2, day = 25\<rparr> + 1))"
    using n by blast
  have c2: "\<not> is_leap (year \<lparr>year = 2024, month = 3, day = 1\<rparr>)
         \<or> (date_lt \<lparr>year = year \<lparr>year = 2024, month = 3, day = 1\<rparr>, month = 2, day = 29\<rparr>
               \<lparr>year = 2024, month = 3, day = 1\<rparr>
            \<and> \<not> is_leap (year \<lparr>year = 2024, month = 3, day = 1\<rparr> + 1))"
    using lt l1 by blast
  note A = leap_day_birthday_raises [OF b s m d i f c1, of 7]
  note B = leap_day_birthday_raises [OF b s m d i f c2, of 7]
  show ?thesis using A B b s n l lt by simp
qed

text \<open>
  C6: when no phone of the record equals \<open>old\<close>, \<open>edit_phone old new\<close> raises the
  not-found error (the source's \<open>ValueError\<close> with the message
  \<open>Phone number ... not found.\<close>) and leaves the record, its phone sequence included,
  exactly as it was.
\<close>

theorem edit_phone_absent:
  assumes "old_number \<notin> set (phones r)"
  shows "edit_phone old_number new_number r =
           (Inl (ValueError (''Phone number '' @ old_number @ '' not found.'')), r)
         \<and> phones (snd (edit_phone old_number new_number r)) = phones r"
  using assms by (simp add: edit_phone_def find_phone_None [THEN iffD2])

theorem edit_phone_absent_witness:
  "''0123456789'' \<notin> set (phones \<lparr>name = ''Ann'', phones = [''5555555555''], birthday = None\<rparr>)
   \<and> edit_phone ''0123456789'' ''1111111111''
        \<lparr>name = ''Ann'', phones = [''5555555555''], birthday = None\<rparr>
      = (Inl (ValueError ''Phone number 0123456789 not found.''),
         \<lparr>name = ''Ann'', phones = [''5555555555''], birthday = None\<rparr>)"
  using edit_phone_absent [of "''0123456789''"
      "\<lparr>name = ''Ann'', phones = [''5555555555''], birthday = None\<rparr>" "''1111111111''"]
  by simp

text \<open>
  C7: whatever operation of a record or of the book is called (\<open>add_phone\<close>,
  \<open>remove_phone\<close>, \<open>edit_phone\<close>, \<open>add_birthday\<close>, \<open>add_record\<close>, \<open>delete\<close>,
  \<open>get_upcoming_birthdays\<close>) and whatever its arguments, a call that raises leaves the book
  as it was: the same records under the same names, each with the phones and the birthday
  it had. Every method validates before it writes, so no call leaves a record half changed.
\<close>

theorem raise_leaves_book:
  assumes "distinct (map fst book)" and "core_call today c book = (Raised e, book')"
  shows "book' = book"
proof (cases c)
  case (AddPhone n p)
  then show ?thesis
    using assms on_record_raises [of book "add_phone p" n e book'] add_phone_raises by simp
next
  case (RemovePhone n p)
  then show ?thesis
    using assms on_record_raises [of book "remove_phone p" n e book'] remove_phone_raises
    by simp
next
  case (EditPhone n old new)
  then show ?thesis
    using assms on_record_raises [of book "edit_phone old new" n e book'] edit_phone_raises
    by simp
next
  case (SetBirthday n b)
  then show ?thesis
    using assms on_record_raises [of book "add_birthday b" n e book'] add_birthday_raises
    by simp
next
  case (AddRecord r)
  then show ?thesis using assms(2) by simp
next
  case (Delete n)
  then show ?thesis using assms(2) by simp
next
  case (UpcomingBirthdays days)
  then show ?thesis using assms(2) by (simp split: sum.splits)
qed

theorem raise_leaves_book_witness:
  "distinct (map fst [(''Ann'', \<lparr>name = ''Ann'', phones = [''1111111111''], birthday = None\<rparr>)])
   \<and> core_call \<lparr>year = 2024, month = 6, day = 13\<rparr> (EditPhone ''Ann'' ''1111111111'' ''12ab'')
        [(''Ann'', \<lparr>name = ''Ann'', phones = [''1111111111''], birthday = None\<rparr>)]
      = (Raised (ValueError ''Phone must be 10 digits.''),
         [(''Ann'', \<lparr>name = ''Ann'', phones = [''1111111111''], birthday = None\<rparr>)])"
proof -
  let ?book = "[(''Ann'', \<lparr>name = ''Ann'', phones = [''1111111111''], birthday = None\<rparr>)]"
  let ?call = "EditPhone ''Ann'' ''1111111111'' ''12ab''"
  have d: "distinct (map fst ?book)" by simp
  have c: "core_call \<lparr>year = 2024, month = 6, day = 13\<rparr> ?call ?book
           = (Raised (ValueError ''Phone must be 10 digits.''), snd (core_call \<lparr>year = 2024, month = 6, day = 13\<rparr> ?call ?book))"
    by (simp add: on_record_def method_outcome_def find_book_def edit_phone_def find_phone_def
        add_phone_def Phone_def)
  from raise_leaves_book [OF d c] c d show ?thesis by simp
qed

text \<open>
  C8 as the code has it: for every date \<open>start_date\<close> and every weekday \<open>t\<close> (0 to 6),
  whenever some date after \<open>start_date\<close> has weekday \<open>t\<close>, \<open>find_next_weekday\<close> returns
  the smallest such date: it is strictly after \<open>start_date\<close>, never \<open>start_date\<close> itself,
  no date between the two has weekday \<open>t\<close>, and when \<open>start_date\<close> already has weekday
  \<open>t\<close> it is \<open>start_date\<close> plus 7 days. When no date after \<open>start_date\<close> has weekday
  \<open>t\<close>, which happens only in the last week of the year 9999, the call raises
  \<open>OverflowError\<close>.
\<close>

theorem find_next_weekday_smallest:
  assumes "valid_date start_date" and "0 \<le> t" and "t \<le> 6"
  shows "(\<forall>r. find_next_weekday start_date t = Inr r \<longrightarrow>
            valid_date r \<and> date_lt start_date r \<and> weekday r = t \<and> r \<noteq> start_date
            \<and> (\<forall>d. valid_date d \<and> date_lt start_date d \<and> weekday d = t \<longrightarrow> \<not> date_lt d r)
            \<and> (weekday start_date = t \<longrightarrow> date_diff_days r start_date = 7))
         \<and> ((\<exists>d. valid_date d \<and> date_lt start_date d \<and> weekday d = t) \<longrightarrow>
              (\<exists>r. find_next_weekday start_date t = Inr r))
         \<and> (\<not> (\<exists>d. valid_date d \<and> date_lt start_date d \<and> weekday d = t) \<longrightarrow>
              find_next_weekday start_date t = Inl (OverflowError ''date value out of range''))"
proof -
  define k where "k = (if t - weekday start_date \<le> 0 then t - weekday start_date + 7
                       else t - weekday start_date)"
  note S = find_next_weekday_steps [OF assms, folded k_def]
  let ?r = "ord2ymd (toordinal start_date + k)"
  show ?thesis
  proof (cases "toordinal start_date + k \<le> 3652059")
    case True
    note R = S(4) [OF True]
    have lt: "date_lt start_date ?r"
      using R S(1) by (simp add: date_lt_iff [OF assms(1)])
    have ne: "?r \<noteq> start_date"
    proof
      assume "?r = start_date"
      then have "toordinal ?r = toordinal start_date" by simp
      then show False using R S(1) by simp
    qed
    have small: "\<not> date_lt d ?r"
      if "valid_date d \<and> date_lt start_date d \<and> weekday d = t" for d
    proof -
      have "toordinal start_date + k \<le> toordinal d" using S(6) that by blast
      then show ?thesis using R that by (simp add: date_lt_iff)
    qed
    have seven: "weekday start_date = t \<longrightarrow> date_diff_days ?r start_date = 7"
    proof
      assume "weekday start_date = t"
      then have "k = 7" by (rule S(3))
      moreover have "date_diff_days ?r start_date = k" using R by (simp add: date_diff_days_def)
      ultimately show "date_diff_days ?r start_date = 7" by simp
    qed
    show ?thesis using R lt ne small seven by auto
  next
    case False
    have none: "\<not> (\<exists>d. valid_date d \<and> date_lt start_date d \<and> weekday d = t)"
    proof
      assume "\<exists>d. valid_date d \<and> date_lt start_date d \<and> weekday d = t"
      then obtain d where d: "valid_date d" "date_lt start_date d" "weekday d = t" by blast
      have "toordinal start_date + k \<le> toordinal d" using S(6) d by blast
      then show False using False toordinal_bounds(2) [OF d(1)] by simp
    qed
    show ?thesis using S(5) [OF False] none by simp
  qed
qed

theorem find_next_weekday_smallest_witness:
  "valid_date \<lparr>year = 2024, month = 6, day = 17\<rparr> \<and> (0::int) \<le> 0 \<and> (0::int) \<le> 6
   \<and> find_next_weekday \<lparr>year = 2024, month = 6, day = 17\<rparr> 0
      = Inr \<lparr>year = 2024, month = 6, day = 24\<rparr>
   \<and> weekday \<lparr>year = 2024, month = 6, day = 24\<rparr> = 0
   \<and> date_diff_days \<lparr>year = 2024, month = 6, day = 24\<rparr> \<lparr>year = 2024, month = 6, day = 17\<rparr> = 7"
proof -
  have v: "valid_date \<lparr>year = 2024, month = 6, day = 17\<rparr>" by code_simp
  have w: "weekday \<lparr>year = 2024, month = 6, day = 17\<rparr> = 0" by code_simp
  have e: "find_next_weekday \<lparr>year = 2024, month = 6, day = 17\<rparr> 0
           = Inr \<lparr>year = 2024, month = 6, day = 24\<rparr>" by code_simp
  from find_next_weekday_smallest [OF v, of 0] e w v show ?thesis by simp
qed

theorem find_next_weekday_counterexample:
  "valid_date \<lparr>year = 9999, month = 12, day = 31\<rparr>
   \<and> find_next_weekday \<lparr>year = 9999, month = 12, day = 31\<rparr> 0
      = Inl (OverflowError ''date value out of range'')"
  by code_simp

text \<open>
  C9: the book holds at most one record per name after every operation: \<open>add_record\<close> and
  \<open>delete\<close> keep the keys distinct. Adding two records of the same name, one after the
  other, leaves exactly one entry under that name, and that entry is the second record as
  it was given, with nothing of the first merged in; the second call does not change the
  size of the book, and from the empty book the size is 1.
\<close>

theorem add_record_overwrites:
  assumes "distinct (map fst book)" and "name r1 = name r2"
  shows "distinct (map fst (add_record r1 book))
         \<and> distinct (map fst (delete n book))
         \<and> distinct (map fst (add_record r2 (add_record r1 book)))
         \<and> length (filter (\<lambda>p. fst p = name r2) (add_record r2 (add_record r1 book))) = 1
         \<and> find_book (name r2) (add_record r2 (add_record r1 book)) = Some r2
         \<and> length (add_record r2 (add_record r1 book)) = length (add_record r1 book)
         \<and> add_record r2 (add_record r1 []) = [(name r2, r2)]
         \<and> length (add_record r2 (add_record r1 [])) = 1"
proof -
  have twice: "add_record r2 (add_record r1 book) = dict_setitem (name r2) r2 book"
    using assms(2) by (simp add: add_record_def dict_setitem_twice)
  have d: "distinct (map fst (dict_setitem (name r2) r2 book))"
    using assms(1) by (rule distinct_dict_setitem)
  have k: "name r2 \<in> set (map fst (dict_setitem (name r2) r2 book))"
    by (simp add: map_fst_dict_setitem)
  have "length (filter (\<lambda>p. fst p = name r2) (dict_setitem (name r2) r2 book)) = 1"
    using d k by (rule count_key_distinct)
  moreover have "length (dict_setitem (name r2) r2 book) = length (dict_setitem (name r1) r1 book)"
    using assms(2) by (simp add: length_dict_setitem)
  moreover have "distinct (map fst (add_record r1 book))"
    using assms(1) by (simp add: add_record_def distinct_dict_setitem)
  moreover have "distinct (map fst (delete n book))"
    using assms(1) by (rule distinct_delete)
  ultimately show ?thesis
    unfolding twice using d assms(2)
    by (simp add: add_record_def find_book_def map_of_dict_setitem)
qed

theorem add_record_overwrites_witness:
  "distinct (map fst ([] :: AddressBook))
   \<and> name \<lparr>name = ''Ann'', phones = [''1111111111''], birthday = None\<rparr>
     = name \<lparr>name = ''Ann'', phones = [''2222222222''], birthday = None\<rparr>
   \<and> add_record \<lparr>name = ''Ann'', phones = [''2222222222''], birthday = None\<rparr>
        (add_record \<lparr>name = ''Ann'', phones = [''1111111111''], birthday = None\<rparr> [])
      = [(''Ann'', \<lparr>name = ''Ann'', phones = [''2222222222''], birthday = None\<rparr>)]"
  using add_record_overwrites [of "[]"
      "\<lparr>name = ''Ann'', phones = [''1111111111''], birthday = None\<rparr>"
      "\<lparr>name = ''Ann'', phones = [''2222222222''], birthday = None\<rparr>"]
  by simp

text \<open>
  C10: \<open>remove_phone number\<close> deletes exactly the first phone equal to \<open>number\<close>: with
  the phones written as \<open>xs @ number # ys\<close>, \<open>number\<close> not in \<open>xs\<close>, it leaves \<open>xs @ ys\<close>,
  so that every other phone, a later duplicate of \<open>number\<close> included, keeps its place. Such
  a decomposition exists whenever \<open>number\<close> is among the phones. When no phone equals
  \<open>number\<close> the call raises the not-found error (the \<open>ValueError\<close> of \<open>list.remove\<close>)
  and the record is unchanged.
\<close>

theorem remove_phone_first:
  "(number \<in> set (phones r) \<longrightarrow>
      (\<exists>xs ys. phones r = xs @ number # ys \<and> number \<notin> set xs))
   \<and> (phones r = xs @ number # ys \<and> number \<notin> set xs \<longrightarrow>
        remove_phone number r = (Inr (), r\<lparr>phones := xs @ ys\<rparr>))
   \<and> (number \<notin> set (phones r) \<longrightarrow>
        remove_phone number r = (Inl (ValueError ''list.remove(x): x not in list''), r)
        \<and> phones (snd (remove_phone number r)) = phones r)"
proof (intro conjI impI)
  assume "number \<in> set (phones r)"
  then show "\<exists>xs ys. phones r = xs @ number # ys \<and> number \<notin> set xs"
    by (rule split_list_first)
next
  assume a: "phones r = xs @ number # ys \<and> number \<notin> set xs"
  then have "number \<in> set (phones r)" by simp
  then have "remove_phone number r = (Inr (), r\<lparr>phones := remove1 number (phones r)\<rparr>)"
    by (rule remove_phone_present)
  then show "remove_phone number r = (Inr (), r\<lparr>phones := xs @ ys\<rparr>)"
    using a by (simp add: remove1_first)
next
  assume "number \<notin> set (phones r)"
  then show "remove_phone number r = (Inl (ValueError ''list.remove(x): x not in list''), r)"
    by (rule remove_phone_absent)
next
  assume "number \<notin> set (phones r)"
  then show "phones (snd (remove_phone number r)) = phones r"
    by (simp add: remove_phone_absent)
qed

theorem remove_phone_first_witness:
  "''2222222222'' \<in> set [''1111111111'', ''2222222222'', ''3333333333'', ''2222222222'']
   \<and> remove_phone ''2222222222''
        \<lparr>name = ''Ann'',
         phones = [''1111111111'', ''2222222222'', ''3333333333'', ''2222222222''],
         birthday = None\<rparr>
      = (Inr (),
         \<lparr>name = ''Ann'', phones = [''1111111111'', ''3333333333'', ''2222222222''],
          birthday = None\<rparr>)
   \<and> ''4444444444'' \<notin> set [''1111111111'']
   \<and> remove_phone ''4444444444'' \<lparr>name = ''Ann'', phones = [''1111111111''], birthday = None\<rparr>
      = (Inl (ValueError ''list.remove(x): x not in list''),
         \<lparr>name = ''Ann'', phones = [''1111111111''], birthday = None\<rparr>)"
  using remove_phone_first [of "''2222222222''"
      "\<lparr>name = ''Ann'',
        phones = [''1111111111'', ''2222222222'', ''3333333333'', ''2222222222''],
        birthday = None\<rparr>" "[''1111111111'']" "[''3333333333'', ''2222222222'']"]
    remove_phone_first [of "''4444444444''"
      "\<lparr>name = ''Ann'', phones = [''1111111111''], birthday = None\<rparr>" "[]" "[]"]
  by simp

end
